theory Spec2Isabelle
  imports
    Complex_Main
    "HOL-Library.Char_ord"
    "HOL-Library.List_Lexorder"
    "HOL-Library.Multiset"
    "HOL-Library.AList"
begin

section \<open>JavaScript values\<close>

text \<open>
  The backup codec works on whatever \<^verbatim>\<open>JSON.parse\<close> returns, typed \<^verbatim>\<open>unknown\<close>. A parsed
  value is a tree of null, booleans, numbers, strings, arrays and objects; \<^verbatim>\<open>undefined\<close>
  only appears as the result of reading a property that is not there, so a value of type
  \<^verbatim>\<open>unknown\<close> is a \<open>json option\<close> with \<open>None\<close> for \<^verbatim>\<open>undefined\<close>.  A property whose
  value is \<^verbatim>\<open>undefined\<close> is identified with an absent property.  Numbers are the finite
  ones, taken as rationals.  An object is the list of its own properties in insertion
  order; its keys are distinct in every parsed value, and a read takes the first binding.
\<close>

datatype json =
    JNull
  | JBool bool
  | JNum rat
  | JStr string
  | JArr "json list"
  | JObj "(string \<times> json) list"

type_synonym unknown = "json option"

datatype js_type = T_undefined | T_object | T_boolean | T_number | T_string

fun typeof :: "unknown \<Rightarrow> js_type" where
  "typeof None = T_undefined"
| "typeof (Some JNull) = T_object"
| "typeof (Some (JBool b)) = T_boolean"
| "typeof (Some (JNum n)) = T_number"
| "typeof (Some (JStr s)) = T_string"
| "typeof (Some (JArr xs)) = T_object"
| "typeof (Some (JObj kvs)) = T_object"

text \<open>Truthiness, as \<^verbatim>\<open>!v\<close> and \<^verbatim>\<open>if (v)\<close> read it.\<close>

fun truthy :: "unknown \<Rightarrow> bool" where
  "truthy None = False"
| "truthy (Some JNull) = False"
| "truthy (Some (JBool b)) = b"
| "truthy (Some (JNum n)) = (n \<noteq> 0)"
| "truthy (Some (JStr s)) = (s \<noteq> [])"
| "truthy (Some (JArr xs)) = True"
| "truthy (Some (JObj kvs)) = True"

fun isArray :: "unknown \<Rightarrow> bool" where
  "isArray (Some (JArr xs)) = True"
| "isArray v = False"

fun elements :: "unknown \<Rightarrow> json list" where
  "elements (Some (JArr xs)) = xs"
| "elements v = []"

datatype js_error = TypeError | DataError | ConstraintError

text \<open>
  The property read \<^verbatim>\<open>v.k\<close>: it throws on \<^verbatim>\<open>undefined\<close> and \<^verbatim>\<open>null\<close>, looks the key up
  in an object, and is \<^verbatim>\<open>undefined\<close> on every other value (none of the names read by
  the code below is a built-in property of a primitive or of an array).
\<close>

fun get :: "unknown \<Rightarrow> string \<Rightarrow> js_error + unknown" where
  "get None k = Inl TypeError"
| "get (Some JNull) k = Inl TypeError"
| "get (Some (JObj kvs)) k = Inr (map_of kvs k)"
| "get (Some (JBool b)) k = Inr None"
| "get (Some (JNum n)) k = Inr None"
| "get (Some (JStr s)) k = Inr None"
| "get (Some (JArr xs)) k = Inr None"

definition bind_js :: "js_error + 'a \<Rightarrow> ('a \<Rightarrow> js_error + 'b) \<Rightarrow> js_error + 'b" where
  "bind_js m f = (case m of Inl e \<Rightarrow> Inl e | Inr x \<Rightarrow> f x)"

section \<open>Backup codec: validation\<close>

definition EXPORT_VERSION :: rat where
  "EXPORT_VERSION = 1"

text \<open>
  The reasons \<^verbatim>\<open>validateImportData\<close> reports, one constructor for each message of the
  source, in the order of the source.  \<open>Version_too_new v\<close> stands for the message that
  quotes the offending version \<open>v\<close> and the supported one.
\<close>

datatype validation_error =
    Expected_an_object
  | Missing_or_invalid_version
  | Version_too_new rat
  | Missing_or_invalid_tasks
  | Invalid_task_entry
  | Task_missing_fields
  | Task_missing_subTasks
  | Missing_or_invalid_documents
  | Invalid_document_entry
  | Document_missing_fields
  | Missing_or_invalid_settings
  | Missing_or_invalid_columnById
  | Invalid_viewMode
  | Invalid_JSON

record ValidationResult =
  valid :: bool
  error :: "validation_error option"

definition invalid :: "validation_error \<Rightarrow> ValidationResult" where
  "invalid e = \<lparr>valid = False, error = Some e\<rparr>"

definition is_valid :: ValidationResult where
  "is_valid = \<lparr>valid = True, error = None\<rparr>"

text \<open>The body of the loop over \<^verbatim>\<open>obj.tasks\<close>; \<open>None\<close> means the loop goes on.\<close>

definition check_task :: "json \<Rightarrow> js_error + ValidationResult option" where
  "check_task task =
     (if \<not> truthy (Some task) \<or> typeof (Some task) \<noteq> T_object
      then Inr (Some (invalid Invalid_task_entry))
      else bind_js (get (Some task) ''id'') (\<lambda>t_id.
        if typeof t_id \<noteq> T_string then Inr (Some (invalid Task_missing_fields))
        else bind_js (get (Some task) ''label'') (\<lambda>t_label.
          if typeof t_label \<noteq> T_string then Inr (Some (invalid Task_missing_fields))
          else bind_js (get (Some task) ''subTasks'') (\<lambda>t_subTasks.
            if \<not> isArray t_subTasks then Inr (Some (invalid Task_missing_subTasks))
            else Inr None))))"

fun check_tasks :: "json list \<Rightarrow> js_error + ValidationResult option" where
  "check_tasks [] = Inr None"
| "check_tasks (task # rest) =
     bind_js (check_task task) (\<lambda>r.
       case r of Some res \<Rightarrow> Inr (Some res) | None \<Rightarrow> check_tasks rest)"

text \<open>The body of the loop over \<^verbatim>\<open>obj.documents\<close>.\<close>

definition check_document :: "json \<Rightarrow> js_error + ValidationResult option" where
  "check_document doc =
     (if \<not> truthy (Some doc) \<or> typeof (Some doc) \<noteq> T_object
      then Inr (Some (invalid Invalid_document_entry))
      else bind_js (get (Some doc) ''id'') (\<lambda>d_id.
        if typeof d_id \<noteq> T_string then Inr (Some (invalid Document_missing_fields))
        else bind_js (get (Some doc) ''taskId'') (\<lambda>d_taskId.
          if typeof d_taskId \<noteq> T_string then Inr (Some (invalid Document_missing_fields))
          else bind_js (get (Some doc) ''title'') (\<lambda>d_title.
            if typeof d_title \<noteq> T_string then Inr (Some (invalid Document_missing_fields))
            else Inr None))))"

fun check_documents :: "json list \<Rightarrow> js_error + ValidationResult option" where
  "check_documents [] = Inr None"
| "check_documents (doc # rest) =
     bind_js (check_document doc) (\<lambda>r.
       case r of Some res \<Rightarrow> Inr (Some res) | None \<Rightarrow> check_documents rest)"

definition validViewModes :: "json list" where
  "validViewModes = [JStr ''list'', JStr ''columns'', JStr ''documents'']"

text \<open>
  \<^verbatim>\<open>Array.prototype.includes\<close> compares with SameValueZero: a primitive is found when an
  equal primitive is in the array, \<^verbatim>\<open>undefined\<close>, an array or an object never is (the
  array here holds strings only).
\<close>

fun array_includes :: "json list \<Rightarrow> unknown \<Rightarrow> bool" where
  "array_includes xs None = False"
| "array_includes xs (Some (JArr ys)) = False"
| "array_includes xs (Some (JObj kvs)) = False"
| "array_includes xs (Some v) = (v \<in> set xs)"

definition check_settings :: "unknown \<Rightarrow> js_error + ValidationResult" where
  "check_settings settings =
     (if \<not> truthy settings \<or> typeof settings \<noteq> T_object
      then Inr (invalid Missing_or_invalid_settings)
      else bind_js (get settings ''columnById'') (\<lambda>columnById.
        if typeof columnById \<noteq> T_object \<or> columnById = Some JNull
        then Inr (invalid Missing_or_invalid_columnById)
        else bind_js (get settings ''viewMode'') (\<lambda>viewMode.
          if \<not> array_includes validViewModes viewMode then Inr (invalid Invalid_viewMode)
          else Inr is_valid)))"

definition validateImportData :: "unknown \<Rightarrow> js_error + ValidationResult" where
  "validateImportData data =
     (if \<not> truthy data \<or> typeof data \<noteq> T_object
      then Inr (invalid Expected_an_object)
      else bind_js (get data ''version'') (\<lambda>version.
        case version of
          Some (JNum v) \<Rightarrow>
            if v > EXPORT_VERSION then Inr (invalid (Version_too_new v))
            else bind_js (get data ''tasks'') (\<lambda>tasks.
              if \<not> isArray tasks then Inr (invalid Missing_or_invalid_tasks)
              else bind_js (check_tasks (elements tasks)) (\<lambda>r.
                case r of
                  Some res \<Rightarrow> Inr res
                | None \<Rightarrow> bind_js (get data ''documents'') (\<lambda>documents.
                    if \<not> isArray documents then Inr (invalid Missing_or_invalid_documents)
                    else bind_js (check_documents (elements documents)) (\<lambda>r.
                      case r of
                        Some res \<Rightarrow> Inr res
                      | None \<Rightarrow> bind_js (get data ''settings'') check_settings))))
        | _ \<Rightarrow> Inr (invalid Missing_or_invalid_version)))"

subsection \<open>The five checks that the validator makes\<close>

text \<open>
  A second description of the validator: five checks, numbered 1 to 5 as the
  specification numbers them, and the number of the first one that fails.  The validator
  takes for an object what \<^verbatim>\<open>typeof\<close> calls \<^verbatim>\<open>"object"\<close> and is not null, so an array passes
  for one, and the view modes it supports are the three of \<^verbatim>\<open>validViewModes\<close>.  "Has a
  string \<open>k\<close>" reads property \<open>k\<close> with \<open>field\<close>, which is \<^verbatim>\<open>undefined\<close> where the value has no
  such property.
\<close>

fun field :: "unknown \<Rightarrow> string \<Rightarrow> unknown" where
  "field (Some (JObj kvs)) k = map_of kvs k"
| "field v k = None"

fun is_object :: "unknown \<Rightarrow> bool" where
  "is_object (Some (JObj kvs)) = True"
| "is_object (Some (JArr xs)) = True"
| "is_object v = False"

fun is_string :: "unknown \<Rightarrow> bool" where
  "is_string (Some (JStr s)) = True"
| "is_string v = False"

fun is_number :: "unknown \<Rightarrow> bool" where
  "is_number (Some (JNum n)) = True"
| "is_number v = False"

fun number_le :: "unknown \<Rightarrow> rat \<Rightarrow> bool" where
  "number_le (Some (JNum n)) m = (n \<le> m)"
| "number_le v m = False"

definition task_shape :: "json \<Rightarrow> bool" where
  "task_shape t =
     (is_string (field (Some t) ''id'') \<and> is_string (field (Some t) ''label'')
      \<and> isArray (field (Some t) ''subTasks''))"

definition document_shape :: "json \<Rightarrow> bool" where
  "document_shape d =
     (is_string (field (Some d) ''id'') \<and> is_string (field (Some d) ''taskId'')
      \<and> is_string (field (Some d) ''title''))"

text \<open>The view modes of \<^verbatim>\<open>validViewModes\<close>, the ones the codec takes.\<close>

definition codec_viewMode :: "unknown \<Rightarrow> bool" where
  "codec_viewMode v =
     (v = Some (JStr ''list'') \<or> v = Some (JStr ''columns'') \<or> v = Some (JStr ''documents''))"

definition check1 :: "unknown \<Rightarrow> bool" where
  "check1 data = is_object data"

definition check2 :: "unknown \<Rightarrow> bool" where
  "check2 data =
     (is_number (field data ''version'') \<and> number_le (field data ''version'') EXPORT_VERSION)"

definition check3 :: "unknown \<Rightarrow> bool" where
  "check3 data =
     (isArray (field data ''tasks'') \<and> list_all task_shape (elements (field data ''tasks'')))"

definition check4 :: "unknown \<Rightarrow> bool" where
  "check4 data =
     (isArray (field data ''documents'')
      \<and> list_all document_shape (elements (field data ''documents'')))"

definition check5 :: "unknown \<Rightarrow> bool" where
  "check5 data =
     (is_object (field data ''settings'')
      \<and> is_object (field (field data ''settings'') ''columnById'')
      \<and> codec_viewMode (field (field data ''settings'') ''viewMode''))"

definition first_failed_check :: "unknown \<Rightarrow> nat option" where
  "first_failed_check data =
     (if \<not> check1 data then Some 1
      else if \<not> check2 data then Some 2
      else if \<not> check3 data then Some 3
      else if \<not> check4 data then Some 4
      else if \<not> check5 data then Some 5
      else None)"

text \<open>The check that each reason of the source belongs to.\<close>

fun check_of :: "validation_error \<Rightarrow> nat" where
  "check_of Expected_an_object = 1"
| "check_of Missing_or_invalid_version = 2"
| "check_of (Version_too_new v) = 2"
| "check_of Missing_or_invalid_tasks = 3"
| "check_of Invalid_task_entry = 3"
| "check_of Task_missing_fields = 3"
| "check_of Task_missing_subTasks = 3"
| "check_of Missing_or_invalid_documents = 4"
| "check_of Invalid_document_entry = 4"
| "check_of Document_missing_fields = 4"
| "check_of Missing_or_invalid_settings = 5"
| "check_of Missing_or_invalid_columnById = 5"
| "check_of Invalid_viewMode = 5"
| "check_of Invalid_JSON = 0"

subsection \<open>The five checks, as the specification words them\<close>

text \<open>
  The specification asks for an object at the top level, for the settings and for
  \<^verbatim>\<open>columnById\<close>, which its data model describes as a map from task ids to columns: an
  array is not one.  The view mode is to be drawn from the supported enum, which the data
  model and the backup format give as list, columns, documents and calendar.  Checks 2,
  3 and 4 read as above.
\<close>

fun spec_object :: "unknown \<Rightarrow> bool" where
  "spec_object (Some (JObj kvs)) = True"
| "spec_object v = False"

definition spec_viewMode :: "unknown \<Rightarrow> bool" where
  "spec_viewMode v =
     (v = Some (JStr ''list'') \<or> v = Some (JStr ''columns'') \<or> v = Some (JStr ''documents'')
      \<or> v = Some (JStr ''calendar''))"

definition spec_check1 :: "unknown \<Rightarrow> bool" where
  "spec_check1 data = spec_object data"

definition spec_check5 :: "unknown \<Rightarrow> bool" where
  "spec_check5 data =
     (spec_object (field data ''settings'')
      \<and> spec_object (field (field data ''settings'') ''columnById'')
      \<and> spec_viewMode (field (field data ''settings'') ''viewMode''))"

definition spec_checks :: "unknown \<Rightarrow> bool" where
  "spec_checks data =
     (spec_check1 data \<and> check2 data \<and> check3 data \<and> check4 data \<and> spec_check5 data)"
section \<open>The record store\<close>

text \<open>
  The embedded database has three tables: \<^verbatim>\<open>tasks\<close> and \<^verbatim>\<open>documents\<close> with primary key
  \<^verbatim>\<open>id\<close>, \<^verbatim>\<open>settings\<close> with primary key \<^verbatim>\<open>key\<close>.  A table is the list of its records in
  the order of their primary keys, which is the order \<^verbatim>\<open>toArray\<close> returns them in.  The
  key of a record is read from the record at the key path; the keys of this schema are
  strings, and a record without a string there is refused with a \<open>DataError\<close>.

  The failures of an operation are the ones its data decides: a missing key, a key that
  is already there.  Failures of the storage itself (quota, no storage) are not modelled.
\<close>

type_synonym table = "json list"

definition key_of :: "string \<Rightarrow> json \<Rightarrow> string option" where
  "key_of keyPath r = (case field (Some r) keyPath of Some (JStr k) \<Rightarrow> Some k | _ \<Rightarrow> None)"

definition Table_get :: "string \<Rightarrow> string \<Rightarrow> table \<Rightarrow> json option" where
  "Table_get keyPath k t = find (\<lambda>x. key_of keyPath x = Some k) t"

text \<open>Places record \<open>r\<close> with key \<open>k\<close>: before the first greater key, or over an equal one.\<close>

fun place :: "string \<Rightarrow> string \<Rightarrow> json \<Rightarrow> table \<Rightarrow> table" where
  "place keyPath k r [] = [r]"
| "place keyPath k r (x # xs) =
     (case key_of keyPath x of
        None \<Rightarrow> x # place keyPath k r xs
      | Some k' \<Rightarrow>
          if k < k' then r # x # xs
          else if k = k' then r # xs
          else x # place keyPath k r xs)"

definition Table_put :: "string \<Rightarrow> json \<Rightarrow> table \<Rightarrow> js_error + table" where
  "Table_put keyPath r t =
     (case key_of keyPath r of
        None \<Rightarrow> Inl DataError
      | Some k \<Rightarrow> Inr (place keyPath k r t))"

definition Table_add :: "string \<Rightarrow> json \<Rightarrow> table \<Rightarrow> js_error + table" where
  "Table_add keyPath r t =
     (case key_of keyPath r of
        None \<Rightarrow> Inl DataError
      | Some k \<Rightarrow>
          if Table_get keyPath k t \<noteq> None then Inl ConstraintError
          else Inr (place keyPath k r t))"

text \<open>
  \<^verbatim>\<open>bulkAdd\<close> rejects when any of its records cannot be added.  Every call in the code is
  awaited inside a transaction, which the rejection aborts, so only the failure is kept.
\<close>

fun Table_bulkAdd :: "string \<Rightarrow> json list \<Rightarrow> table \<Rightarrow> js_error + table" where
  "Table_bulkAdd keyPath [] t = Inr t"
| "Table_bulkAdd keyPath (r # rs) t = bind_js (Table_add keyPath r t) (Table_bulkAdd keyPath rs)"

definition Table_clear :: "table \<Rightarrow> table" where
  "Table_clear t = []"

definition Table_delete :: "string \<Rightarrow> string \<Rightarrow> table \<Rightarrow> table" where
  "Table_delete keyPath k t = filter (\<lambda>x. key_of keyPath x \<noteq> Some k) t"

text \<open>\<^verbatim>\<open>where(index).equals(v).delete()\<close> on a string-valued index.\<close>

definition Table_where_equals_delete :: "string \<Rightarrow> string \<Rightarrow> table \<Rightarrow> table" where
  "Table_where_equals_delete index v t = filter (\<lambda>x. field (Some x) index \<noteq> Some (JStr v)) t"

definition Table_toArray :: "table \<Rightarrow> json list" where
  "Table_toArray t = t"

record Store =
  db_tasks :: table
  db_settings :: table
  db_documents :: table

text \<open>
  An object literal: a property whose value is \<^verbatim>\<open>undefined\<close> is left out.
\<close>

fun object :: "(string \<times> unknown) list \<Rightarrow> (string \<times> json) list" where
  "object [] = []"
| "object ((k, None) # ps) = object ps"
| "object ((k, Some v) # ps) = (k, v) # object ps"

text \<open>
  The functions of \<^verbatim>\<open>db.ts\<close>, passing the store.  A function that can reject returns
  \<open>Inl\<close>, and then the store is as it was: a transaction that fails is rolled back.
\<close>

definition getAllTasks :: "Store \<Rightarrow> json list" where
  "getAllTasks db = Table_toArray (db_tasks db)"

definition saveTasks :: "json list \<Rightarrow> Store \<Rightarrow> js_error + Store" where
  "saveTasks tasks db =
     (let cleared = Table_clear (db_tasks db) in
      if length tasks > 0
      then bind_js (Table_bulkAdd ''id'' tasks cleared) (\<lambda>t. Inr (db\<lparr>db_tasks := t\<rparr>))
      else Inr (db\<lparr>db_tasks := cleared\<rparr>))"

definition getSetting :: "string \<Rightarrow> Store \<Rightarrow> unknown" where
  "getSetting key db =
     (case Table_get ''key'' key (db_settings db) of
        None \<Rightarrow> None
      | Some entry \<Rightarrow> field (Some entry) ''value'')"

definition setSetting :: "string \<Rightarrow> unknown \<Rightarrow> Store \<Rightarrow> js_error + Store" where
  "setSetting key v db =
     bind_js (Table_put ''key'' (JObj (object [(''key'', Some (JStr key)), (''value'', v)]))
                (db_settings db))
       (\<lambda>t. Inr (db\<lparr>db_settings := t\<rparr>))"

text \<open>The operator \<^verbatim>\<open>??\<close>: the default replaces \<^verbatim>\<open>undefined\<close> and \<^verbatim>\<open>null\<close>.\<close>

fun nullish_or :: "unknown \<Rightarrow> json \<Rightarrow> json" where
  "nullish_or None d = d"
| "nullish_or (Some JNull) d = d"
| "nullish_or (Some v) d = v"

record PersistedData =
  pd_tasks :: "json list"
  pd_columnById :: json
  pd_viewMode :: json

definition loadPersistedData :: "Store \<Rightarrow> PersistedData" where
  "loadPersistedData db =
     \<lparr>pd_tasks = getAllTasks db,
      pd_columnById = nullish_or (getSetting ''columnById'' db) (JObj []),
      pd_viewMode = nullish_or (getSetting ''viewMode'' db) (JStr ''list'')\<rparr>"

definition getAllDocuments :: "Store \<Rightarrow> json list" where
  "getAllDocuments db = Table_toArray (db_documents db)"

definition saveDocument :: "json \<Rightarrow> Store \<Rightarrow> js_error + Store" where
  "saveDocument document db =
     bind_js (Table_put ''id'' document (db_documents db)) (\<lambda>t. Inr (db\<lparr>db_documents := t\<rparr>))"

definition deleteDocumentFromDb :: "string \<Rightarrow> Store \<Rightarrow> Store" where
  "deleteDocumentFromDb i db = db\<lparr>db_documents := Table_delete ''id'' i (db_documents db)\<rparr>"

definition deleteDocumentsByTaskIdFromDb :: "string \<Rightarrow> Store \<Rightarrow> Store" where
  "deleteDocumentsByTaskIdFromDb taskId db =
     db\<lparr>db_documents := Table_where_equals_delete ''taskId'' taskId (db_documents db)\<rparr>"

section \<open>Backup codec: export, parse, import\<close>

text \<open>
  The envelope that \<^verbatim>\<open>exportAllData\<close> builds; \<open>now\<close> is the timestamp
  \<^verbatim>\<open>new Date().toISOString()\<close>.  The text itself is made by \<^verbatim>\<open>JSON.stringify\<close> and read
  back by \<^verbatim>\<open>JSON.parse\<close>, two functions of the platform that the codec takes as they are:
  \<open>stringify\<close> gives the text of a tree, \<open>parse\<close> gives the tree of a text, or \<open>None\<close>
  where \<^verbatim>\<open>JSON.parse\<close> throws a syntax error.
\<close>

definition exportData :: "string \<Rightarrow> Store \<Rightarrow> json" where
  "exportData now db =
     JObj [(''version'', JNum EXPORT_VERSION),
           (''exportedAt'', JStr now),
           (''tasks'', JArr (getAllTasks db)),
           (''documents'', JArr (getAllDocuments db)),
           (''settings'',
              JObj [(''columnById'', nullish_or (getSetting ''columnById'' db) (JObj [])),
                    (''viewMode'', nullish_or (getSetting ''viewMode'' db) (JStr ''list''))])]"

definition exportAllData :: "(json \<Rightarrow> string) \<Rightarrow> string \<Rightarrow> Store \<Rightarrow> string" where
  "exportAllData stringify now db = stringify (exportData now db)"

record ImportFile =
  file_data :: "json option"
  file_error :: "validation_error option"

definition parseImportFile :: "(string \<Rightarrow> json option) \<Rightarrow> string \<Rightarrow> js_error + ImportFile" where
  "parseImportFile parse content =
     (case parse content of
        None \<Rightarrow> Inr \<lparr>file_data = None, file_error = Some Invalid_JSON\<rparr>
      | Some parsed \<Rightarrow>
          bind_js (validateImportData (Some parsed)) (\<lambda>validation.
            if \<not> valid validation
            then Inr \<lparr>file_data = None, file_error = error validation\<rparr>
            else Inr \<lparr>file_data = Some parsed, file_error = None\<rparr>))"

text \<open>
  \<^verbatim>\<open>xs.map(f)\<close> and \<^verbatim>\<open>xs.filter(p)\<close> where the callback reads a property and so may
  throw; on a value that is not an array the method call itself throws.
\<close>

fun map_js :: "(json \<Rightarrow> js_error + 'a) \<Rightarrow> json list \<Rightarrow> js_error + 'a list" where
  "map_js f [] = Inr []"
| "map_js f (x # xs) = bind_js (f x) (\<lambda>y. bind_js (map_js f xs) (\<lambda>ys. Inr (y # ys)))"

fun filter_js :: "(json \<Rightarrow> js_error + bool) \<Rightarrow> json list \<Rightarrow> js_error + json list" where
  "filter_js p [] = Inr []"
| "filter_js p (x # xs) =
     bind_js (p x) (\<lambda>b. bind_js (filter_js p xs) (\<lambda>ys. Inr (if b then x # ys else ys)))"

definition array_of :: "unknown \<Rightarrow> js_error + json list" where
  "array_of v = (if isArray v then Inr (elements v) else Inl TypeError)"

text \<open>
  \<^verbatim>\<open>Set.prototype.has\<close> compares with SameValueZero: \<^verbatim>\<open>undefined\<close> and the primitives by
  value, arrays and objects by identity, and no two nodes of a parsed tree are the
  same object.
\<close>

fun Set_has :: "unknown list \<Rightarrow> unknown \<Rightarrow> bool" where
  "Set_has s (Some (JArr ys)) = False"
| "Set_has s (Some (JObj kvs)) = False"
| "Set_has s v = (v \<in> set s)"

text \<open>
  \<^verbatim>\<open>importAllData\<close>: the valid task ids, the documents that refer to one of them, and then
  the transaction over the three tables.  Any failure inside leaves the store as it was.
\<close>

definition importAllData :: "json \<Rightarrow> Store \<Rightarrow> js_error + Store" where
  "importAllData data db =
     bind_js (get (Some data) ''tasks'') (\<lambda>tasks.
     bind_js (array_of tasks) (\<lambda>tasks.
     bind_js (map_js (\<lambda>t. get (Some t) ''id'') tasks) (\<lambda>validTaskIds.
     bind_js (get (Some data) ''documents'') (\<lambda>documents.
     bind_js (array_of documents) (\<lambda>documents.
     bind_js (filter_js (\<lambda>doc. bind_js (get (Some doc) ''taskId'')
                                   (\<lambda>taskId. Inr (Set_has validTaskIds taskId))) documents)
       (\<lambda>validDocuments.
     bind_js (if length tasks > 0 then Table_bulkAdd ''id'' tasks (Table_clear (db_tasks db))
              else Inr (Table_clear (db_tasks db))) (\<lambda>new_tasks.
     bind_js (if length validDocuments > 0
              then Table_bulkAdd ''id'' validDocuments (Table_clear (db_documents db))
              else Inr (Table_clear (db_documents db))) (\<lambda>new_documents.
     bind_js (get (Some data) ''settings'') (\<lambda>settings.
     bind_js (get settings ''columnById'') (\<lambda>columnById.
     bind_js (Table_put ''key''
                (JObj (object [(''key'', Some (JStr ''columnById'')), (''value'', columnById)]))
                (Table_clear (db_settings db))) (\<lambda>settings1.
     bind_js (get settings ''viewMode'') (\<lambda>viewMode.
     bind_js (Table_put ''key''
                (JObj (object [(''key'', Some (JStr ''viewMode'')), (''value'', viewMode)]))
                settings1) (\<lambda>settings2.
     Inr \<lparr>db_tasks = new_tasks, db_settings = settings2, db_documents = new_documents\<rparr>
     )))))))))))))"

text \<open>The documents of a store whose task is not in the store.\<close>

definition orphaned :: "Store \<Rightarrow> json list" where
  "orphaned db =
     filter (\<lambda>doc. \<not> Set_has (map (\<lambda>t. field (Some t) ''id'') (db_tasks db))
                                (field (Some doc) ''taskId''))
       (db_documents db)"

subsection \<open>The import dialog\<close>

text \<open>
  What \<^verbatim>\<open>handleConfirmImport\<close> of the settings menu does to the store, to the
  process-wide flag \<^verbatim>\<open>importInProgress\<close> and to the error it shows.  The catch block of
  the handler resets the flag and shows the general failure; closing the dialog and the
  reload of the page after a successful import are not part of this state.  \<open>trim\<close>
  removes the ASCII white space at both ends.
\<close>

datatype import_message =
    Parse_error validation_error
  | Failed_to_parse_data
  | Failed_to_import_data

record Menu =
  menu_db :: Store
  menu_importInProgress :: bool
  menu_error :: "import_message option"
  menu_isLoading :: bool

fun is_space :: "char \<Rightarrow> bool" where
  "is_space c = (c \<in> set [CHR '' '', CHR 0x09, CHR 0x0A, CHR 0x0B, CHR 0x0C, CHR 0x0D])"

definition trim :: "string \<Rightarrow> string" where
  "trim s = rev (dropWhile is_space (rev (dropWhile is_space s)))"

definition handleConfirmImport :: "(string \<Rightarrow> json option) \<Rightarrow> string \<Rightarrow> Menu \<Rightarrow> Menu" where
  "handleConfirmImport parse importText m =
     (let m1 = m\<lparr>menu_isLoading := True, menu_error := None\<rparr>;
          failed = (\<lambda>m'. m'\<lparr>menu_importInProgress := False,
                           menu_error := Some Failed_to_import_data,
                           menu_isLoading := False\<rparr>)
      in case parseImportFile parse (trim importText) of
           Inl e \<Rightarrow> failed m1
         | Inr file \<Rightarrow>
             if file_error file \<noteq> None \<or> file_data file = None
             then m1\<lparr>menu_error := Some (case file_error file of
                                           Some e \<Rightarrow> Parse_error e
                                         | None \<Rightarrow> Failed_to_parse_data),
                     menu_isLoading := False\<rparr>
             else (let m2 = m1\<lparr>menu_importInProgress := True\<rparr> in
                   case file_data file of
                     None \<Rightarrow> failed m2
                   | Some data \<Rightarrow>
                       (case importAllData data (menu_db m2) of
                          Inl e \<Rightarrow> failed m2
                        | Inr db' \<Rightarrow> m2\<lparr>menu_db := db', menu_isLoading := False\<rparr>)))"

subsection \<open>Reading an envelope\<close>

text \<open>
  Names for the parts of an envelope that the statements below speak of: its tasks, its
  documents, the ids of its tasks, and whether a document refers to one of its tasks.
\<close>

definition envelope_tasks :: "json \<Rightarrow> json list" where
  "envelope_tasks data = elements (field (Some data) ''tasks'')"

definition envelope_documents :: "json \<Rightarrow> json list" where
  "envelope_documents data = elements (field (Some data) ''documents'')"

definition task_ids :: "json list \<Rightarrow> unknown list" where
  "task_ids ts = map (\<lambda>t. field (Some t) ''id'') ts"

definition refers_to :: "json list \<Rightarrow> json \<Rightarrow> bool" where
  "refers_to ts doc = (field (Some doc) ''taskId'' \<in> set (task_ids ts))"

text \<open>
  The invariant of a table: every record has a key, and the keys strictly increase.
\<close>

fun strictly_ordered :: "string \<Rightarrow> table \<Rightarrow> bool" where
  "strictly_ordered keyPath [] = True"
| "strictly_ordered keyPath [x] = (key_of keyPath x \<noteq> None)"
| "strictly_ordered keyPath (x # y # zs) =
     (case (key_of keyPath x, key_of keyPath y) of
        (Some a, Some b) \<Rightarrow> a < b \<and> strictly_ordered keyPath (y # zs)
      | _ \<Rightarrow> False)"

text \<open>The keys of a table after a record with key \<open>k\<close> is placed in it.\<close>

fun put_key :: "string \<Rightarrow> string list \<Rightarrow> string list" where
  "put_key k [] = [k]"
| "put_key k (a # as) = (if k < a then k # a # as else if k = a then k # as else a # put_key k as)"

text \<open>
  A store whose records have the shapes that the record types of \<^verbatim>\<open>db.ts\<close> declare and
  the validator asks for: tasks and documents under their string ids, a \<^verbatim>\<open>columnById\<close>
  setting that is an object and a \<^verbatim>\<open>viewMode\<close> setting that is one of the three modes of
  the codec, each of the two either stored or left to its default.
\<close>

definition well_typed_store :: "Store \<Rightarrow> bool" where
  "well_typed_store db =
     (strictly_ordered ''id'' (db_tasks db) \<and> list_all task_shape (db_tasks db)
      \<and> strictly_ordered ''id'' (db_documents db) \<and> list_all document_shape (db_documents db)
      \<and> is_object (Some (nullish_or (getSetting ''columnById'' db) (JObj [])))
      \<and> codec_viewMode (Some (nullish_or (getSetting ''viewMode'' db) (JStr ''list''))))"

section \<open>Persistence hooks\<close>

text \<open>
  The two hooks hold typed records in memory and write them to the store.  The state of
  the whole page is one record: the store, the process-wide flag \<^verbatim>\<open>importInProgress\<close>, a
  clock in milliseconds that drives the timers and serves as \<^verbatim>\<open>Date.now()\<close>, the state and
  the refs of the task hook (\<^verbatim>\<open>useTaskStore\<close>), those of the document hook
  (\<^verbatim>\<open>useDocumentStore\<close>), and the id of the task open in the editor of the item list.
  \<open>writes\<close> is a log of the store writes issued so far, kept to count them, and
  \<open>inFlightSaves\<close> holds, for every save loop of the document hook that is waiting for a
  write to finish, the documents it has still to save.

  The state is the one after hydration: the item list shows a loader until both hooks
  are hydrated, so no operation below runs before.  Hydration itself and \<^verbatim>\<open>reloadFromDb\<close>,
  which no component calls, are not modelled.
\<close>

record SubTask =
  subtask_id :: string
  subtask_label :: string
  completed :: bool

record TaskRecord =
  task_id :: string
  task_label :: string
  link :: "string option"
  subTasks :: "SubTask list"

record DocumentRecord =
  doc_id :: string
  taskId :: string
  title :: string
  content :: json
  createdAt :: nat
  updatedAt :: nat

datatype ColumnId = column_1 | column_2 | column_3

datatype ViewMode = mode_list | mode_columns | mode_documents

definition DEFAULT_COLUMN :: ColumnId where
  "DEFAULT_COLUMN = column_1"

text \<open>The objects that reach the store when the typed records are written.\<close>

definition SubTask_json :: "SubTask \<Rightarrow> json" where
  "SubTask_json st =
     JObj [(''id'', JStr (subtask_id st)), (''label'', JStr (subtask_label st)),
           (''completed'', JBool (completed st))]"

definition TaskRecord_json :: "TaskRecord \<Rightarrow> json" where
  "TaskRecord_json t =
     JObj (object [(''id'', Some (JStr (task_id t))), (''label'', Some (JStr (task_label t))),
                   (''link'', map_option JStr (link t)),
                   (''subTasks'', Some (JArr (map SubTask_json (subTasks t))))])"

definition DocumentRecord_json :: "DocumentRecord \<Rightarrow> json" where
  "DocumentRecord_json d =
     JObj [(''id'', JStr (doc_id d)), (''taskId'', JStr (taskId d)), (''title'', JStr (title d)),
           (''content'', content d), (''createdAt'', JNum (of_nat (createdAt d))),
           (''updatedAt'', JNum (of_nat (updatedAt d)))]"

fun ColumnId_json :: "ColumnId \<Rightarrow> json" where
  "ColumnId_json column_1 = JStr ''column-1''"
| "ColumnId_json column_2 = JStr ''column-2''"
| "ColumnId_json column_3 = JStr ''column-3''"

definition columnById_json :: "(string \<times> ColumnId) list \<Rightarrow> json" where
  "columnById_json m = JObj (map (\<lambda>(k, c). (k, ColumnId_json c)) m)"

fun ViewMode_json :: "ViewMode \<Rightarrow> json" where
  "ViewMode_json mode_list = JStr ''list''"
| "ViewMode_json mode_columns = JStr ''columns''"
| "ViewMode_json mode_documents = JStr ''documents''"

datatype store_write =
    SaveTasks "TaskRecord list"
  | SetSetting string json
  | SaveDocument DocumentRecord
  | DeleteDocument string
  | DeleteDocumentsByTaskId string

text \<open>
  A pending timer is its deadline on the clock, with the value its callback closed over.
  The map \<^verbatim>\<open>pendingSavesRef\<close> is the list of its entries in insertion order; \<^verbatim>\<open>set\<close> on a
  key that is there keeps its place, and \<^verbatim>\<open>columnById\<close> is such a list too.
\<close>

record World =
  store :: Store
  importInProgress :: bool
  clock :: nat
  writes :: "store_write list"
  items :: "TaskRecord list"
  columnById :: "(string \<times> ColumnId) list"
  viewMode :: ViewMode
  hasHydratedRef :: bool
  itemsTimeoutRef :: "(nat \<times> TaskRecord list) option"
  columnByIdTimeoutRef :: "(nat \<times> (string \<times> ColumnId) list) option"
  viewModeTimeoutRef :: "(nat \<times> ViewMode) option"
  documents :: "DocumentRecord list"
  saveTimeoutRef :: "nat option"
  pendingSavesRef :: "(string \<times> DocumentRecord) list"
  inFlightSaves :: "DocumentRecord list list"
  editingItemId :: "string option"

definition setImportInProgress :: "bool \<Rightarrow> World \<Rightarrow> World" where
  "setImportInProgress v w = w\<lparr>importInProgress := v\<rparr>"

text \<open>
  A store write as a hook issues it: the write is logged, and a rejected write is caught
  and leaves the store as it was.
\<close>

definition caught :: "js_error + Store \<Rightarrow> Store \<Rightarrow> Store" where
  "caught result old = (case result of Inl e \<Rightarrow> old | Inr new \<Rightarrow> new)"

definition issue_saveTasks :: "TaskRecord list \<Rightarrow> World \<Rightarrow> World" where
  "issue_saveTasks v w =
     w\<lparr>store := caught (saveTasks (map TaskRecord_json v) (store w)) (store w),
       writes := writes w @ [SaveTasks v]\<rparr>"

definition issue_setSetting :: "string \<Rightarrow> json \<Rightarrow> World \<Rightarrow> World" where
  "issue_setSetting key v w =
     w\<lparr>store := caught (setSetting key (Some v) (store w)) (store w),
       writes := writes w @ [SetSetting key v]\<rparr>"

definition issue_saveDocument :: "DocumentRecord \<Rightarrow> World \<Rightarrow> World" where
  "issue_saveDocument d w =
     w\<lparr>store := caught (saveDocument (DocumentRecord_json d) (store w)) (store w),
       writes := writes w @ [SaveDocument d]\<rparr>"

subsection \<open>The task hook\<close>

text \<open>\<^verbatim>\<open>DEBOUNCE_MS\<close> of the task hook.\<close>

definition TASK_DEBOUNCE_MS :: nat where
  "TASK_DEBOUNCE_MS = 300"

text \<open>
  What a setter of React state is given, as the effects see it: the reference that the
  state already holds, and then nothing runs, or a new array or object, whatever it holds.
  Every update of the item list but the one of \<^verbatim>\<open>handleDrop\<close> builds a new array or object.
\<close>

datatype 'a next_state = Same_reference | New_reference 'a

text \<open>
  A setter of the hook.  The effect that persists a state runs when the state changes:
  for the items and the column map when the reference is a new one, for the view mode,
  a string, when the value is another one.  Then the cleanup of the effect's last run
  clears the pending timer; the effect returns at once before hydration, and otherwise
  clears the timer and sets a new one, whose callback closes over the new value.
\<close>

definition setItems :: "TaskRecord list next_state \<Rightarrow> World \<Rightarrow> World" where
  "setItems action w =
     (case action of
        Same_reference \<Rightarrow> w
      | New_reference v \<Rightarrow>
          (let w1 = w\<lparr>items := v, itemsTimeoutRef := None\<rparr> in
           if \<not> hasHydratedRef w1 then w1
           else w1\<lparr>itemsTimeoutRef := Some (clock w1 + TASK_DEBOUNCE_MS, v)\<rparr>))"

definition setColumnById :: "(string \<times> ColumnId) list next_state \<Rightarrow> World \<Rightarrow> World" where
  "setColumnById action w =
     (case action of
        Same_reference \<Rightarrow> w
      | New_reference v \<Rightarrow>
          (let w1 = w\<lparr>columnById := v, columnByIdTimeoutRef := None\<rparr> in
           if \<not> hasHydratedRef w1 then w1
           else w1\<lparr>columnByIdTimeoutRef := Some (clock w1 + TASK_DEBOUNCE_MS, v)\<rparr>))"

definition setViewMode :: "ViewMode \<Rightarrow> World \<Rightarrow> World" where
  "setViewMode v w =
     (if v = viewMode w then w
      else (let w1 = w\<lparr>viewMode := v, viewModeTimeoutRef := None\<rparr> in
            if \<not> hasHydratedRef w1 then w1
            else w1\<lparr>viewModeTimeoutRef := Some (clock w1 + TASK_DEBOUNCE_MS, v)\<rparr>))"

text \<open>The callbacks of the three timers.\<close>

definition itemsTimeout_callback :: "TaskRecord list \<Rightarrow> World \<Rightarrow> World" where
  "itemsTimeout_callback v w = (if importInProgress w then w else issue_saveTasks v w)"

definition columnByIdTimeout_callback :: "(string \<times> ColumnId) list \<Rightarrow> World \<Rightarrow> World" where
  "columnByIdTimeout_callback v w =
     (if importInProgress w then w else issue_setSetting ''columnById'' (columnById_json v) w)"

definition viewModeTimeout_callback :: "ViewMode \<Rightarrow> World \<Rightarrow> World" where
  "viewModeTimeout_callback v w =
     (if importInProgress w then w else issue_setSetting ''viewMode'' (ViewMode_json v) w)"

text \<open>
  \<^verbatim>\<open>flushPendingSaves\<close> clears the timers and issues the three writes together, whatever
  the flag says; the promise it returns is not part of the state.
\<close>

definition task_flushPendingSaves :: "World \<Rightarrow> World" where
  "task_flushPendingSaves w =
     (let w1 = w\<lparr>itemsTimeoutRef := None, columnByIdTimeoutRef := None,
                 viewModeTimeoutRef := None\<rparr>
      in issue_setSetting ''viewMode'' (ViewMode_json (viewMode w1))
           (issue_setSetting ''columnById'' (columnById_json (columnById w1))
              (issue_saveTasks (items w1) w1)))"

subsection \<open>The document hook\<close>

text \<open>\<^verbatim>\<open>DEBOUNCE_MS\<close> of the document hook.\<close>

definition DOCUMENT_DEBOUNCE_MS :: nat where
  "DOCUMENT_DEBOUNCE_MS = 300"

definition scheduleSave :: "DocumentRecord \<Rightarrow> World \<Rightarrow> World" where
  "scheduleSave document w =
     w\<lparr>pendingSavesRef := AList.update (doc_id document) document (pendingSavesRef w),
       saveTimeoutRef := Some (clock w + DOCUMENT_DEBOUNCE_MS)\<rparr>"

text \<open>
  The loop \<^verbatim>\<open>for (const doc of saves) { await saveDocument(doc) }\<close>: the first write is
  issued when the loop starts, and the loop then waits for it; the documents it has still
  to save are in flight.  \<open>resume i\<close> is the loop at place \<open>i\<close> going on after the write it
  waited for: it issues its next write, and it is done when none is left.  Between the
  start of a loop and each \<open>resume\<close> any other operation may run.  \<open>settle\<close> lets every
  loop run to its end, one after the other.
\<close>

definition start_saves :: "DocumentRecord list \<Rightarrow> World \<Rightarrow> World" where
  "start_saves saves w =
     (case saves of
        [] \<Rightarrow> w
      | doc # rest \<Rightarrow>
          (let w1 = issue_saveDocument doc w in
           if rest = [] then w1 else w1\<lparr>inFlightSaves := inFlightSaves w1 @ [rest]\<rparr>))"

definition resume :: "nat \<Rightarrow> World \<Rightarrow> World" where
  "resume i w =
     (if i < length (inFlightSaves w)
      then (case inFlightSaves w ! i of
              [] \<Rightarrow> w\<lparr>inFlightSaves := take i (inFlightSaves w) @ drop (Suc i) (inFlightSaves w)\<rparr>
            | doc # rest \<Rightarrow>
                issue_saveDocument doc
                  (w\<lparr>inFlightSaves :=
                       (if rest = []
                        then take i (inFlightSaves w) @ drop (Suc i) (inFlightSaves w)
                        else (inFlightSaves w)[i := rest])\<rparr>))
      else w)"

definition settle :: "World \<Rightarrow> World" where
  "settle w = fold (fold issue_saveDocument) (inFlightSaves w) (w\<lparr>inFlightSaves := []\<rparr>)"

text \<open>
  The callback of the timer of the document hook: with an import in progress it empties
  the map and returns; otherwise it takes the values of the map, empties it, and starts
  the loop over them.
\<close>

definition saveTimeout_callback :: "World \<Rightarrow> World" where
  "saveTimeout_callback w =
     (if importInProgress w then w\<lparr>pendingSavesRef := []\<rparr>
      else (let saves = map snd (pendingSavesRef w) in
            start_saves saves (w\<lparr>pendingSavesRef := []\<rparr>)))"

text \<open>
  \<^verbatim>\<open>addDocument\<close>; \<open>new_id\<close> is the id that \<^verbatim>\<open>createDocumentId\<close> draws.  The new document, which
  the source also returns, is the last of \<open>documents\<close>.
\<close>

definition addDocument :: "string \<Rightarrow> string \<Rightarrow> string \<Rightarrow> World \<Rightarrow> World" where
  "addDocument new_id task new_title w =
     (let now = clock w;
          newDoc = \<lparr>doc_id = new_id, taskId = task,
                    title = (if new_title = [] then ''Untitled'' else new_title),
                    content = JObj [(''type'', JStr ''doc''),
                                    (''content'', JArr [JObj [(''type'', JStr ''paragraph'')]])],
                    createdAt = now, updatedAt = now\<rparr>
      in scheduleSave newDoc (w\<lparr>documents := documents w @ [newDoc]\<rparr>))"

text \<open>
  \<^verbatim>\<open>updateDocument\<close>; the updates are a title, a content, both or none.  The save is
  scheduled for every document in memory that has the id.
\<close>

definition updated_document ::
  "string option \<Rightarrow> json option \<Rightarrow> nat \<Rightarrow> DocumentRecord \<Rightarrow> DocumentRecord" where
  "updated_document new_title new_content now doc =
     doc\<lparr>title := (case new_title of None \<Rightarrow> title doc | Some t \<Rightarrow> t),
         content := (case new_content of None \<Rightarrow> content doc | Some c \<Rightarrow> c),
         updatedAt := now\<rparr>"

definition updateDocument :: "string \<Rightarrow> string option \<Rightarrow> json option \<Rightarrow> World \<Rightarrow> World" where
  "updateDocument i new_title new_content w =
     (let upd = updated_document new_title new_content (clock w);
          hit = filter (\<lambda>doc. doc_id doc = i) (documents w)
      in fold scheduleSave (map upd hit)
           (w\<lparr>documents := map (\<lambda>doc. if doc_id doc \<noteq> i then doc else upd doc) (documents w)\<rparr>))"

definition deleteDocument :: "string \<Rightarrow> World \<Rightarrow> World" where
  "deleteDocument i w =
     w\<lparr>pendingSavesRef := AList.delete i (pendingSavesRef w),
       documents := filter (\<lambda>doc. doc_id doc \<noteq> i) (documents w),
       store := deleteDocumentFromDb i (store w),
       writes := writes w @ [DeleteDocument i]\<rparr>"

definition deleteDocumentsByTaskId :: "string \<Rightarrow> World \<Rightarrow> World" where
  "deleteDocumentsByTaskId task w =
     (let docsToDelete = filter (\<lambda>doc. taskId doc = task) (documents w) in
      w\<lparr>pendingSavesRef := fold (\<lambda>doc. AList.delete (doc_id doc)) docsToDelete (pendingSavesRef w),
        documents := filter (\<lambda>doc. taskId doc \<noteq> task) (documents w),
        store := deleteDocumentsByTaskIdFromDb task (store w),
        writes := writes w @ [DeleteDocumentsByTaskId task]\<rparr>)"

definition getDocumentsByTaskId :: "string \<Rightarrow> World \<Rightarrow> DocumentRecord list" where
  "getDocumentsByTaskId task w = filter (\<lambda>doc. taskId doc = task) (documents w)"

definition document_flushPendingSaves :: "World \<Rightarrow> World" where
  "document_flushPendingSaves w =
     (let saves = map snd (pendingSavesRef w) in
      start_saves saves (w\<lparr>saveTimeoutRef := None, pendingSavesRef := []\<rparr>))"

subsection \<open>Time\<close>

text \<open>
  \<open>advance d\<close> lets \<open>d\<close> milliseconds pass: every timer whose deadline is reached fires, once,
  and is no longer pending.  The due timers fire in the order items, columnById, viewMode,
  documents; their callbacks write to different tables or keys and set no timer.  A write
  takes effect in the store when it is issued: the store runs the writes on one table in
  the order they were issued in.  The callbacks of the task hook issue one write and are
  done; the callback of the document hook starts its loop, which \<open>resume\<close> carries on.
\<close>

definition fire_itemsTimeout :: "World \<Rightarrow> World" where
  "fire_itemsTimeout w =
     (case itemsTimeoutRef w of
        None \<Rightarrow> w
      | Some (deadline, v) \<Rightarrow>
          if deadline \<le> clock w then itemsTimeout_callback v (w\<lparr>itemsTimeoutRef := None\<rparr>)
          else w)"

definition fire_columnByIdTimeout :: "World \<Rightarrow> World" where
  "fire_columnByIdTimeout w =
     (case columnByIdTimeoutRef w of
        None \<Rightarrow> w
      | Some (deadline, v) \<Rightarrow>
          if deadline \<le> clock w
          then columnByIdTimeout_callback v (w\<lparr>columnByIdTimeoutRef := None\<rparr>)
          else w)"

definition fire_viewModeTimeout :: "World \<Rightarrow> World" where
  "fire_viewModeTimeout w =
     (case viewModeTimeoutRef w of
        None \<Rightarrow> w
      | Some (deadline, v) \<Rightarrow>
          if deadline \<le> clock w
          then viewModeTimeout_callback v (w\<lparr>viewModeTimeoutRef := None\<rparr>)
          else w)"

definition fire_saveTimeout :: "World \<Rightarrow> World" where
  "fire_saveTimeout w =
     (case saveTimeoutRef w of
        None \<Rightarrow> w
      | Some deadline \<Rightarrow>
          if deadline \<le> clock w then saveTimeout_callback (w\<lparr>saveTimeoutRef := None\<rparr>)
          else w)"

definition advance :: "nat \<Rightarrow> World \<Rightarrow> World" where
  "advance d w =
     fire_saveTimeout (fire_viewModeTimeout (fire_columnByIdTimeout (fire_itemsTimeout
       (w\<lparr>clock := clock w + d\<rparr>))))"

subsection \<open>The item list\<close>

text \<open>
  The operations of the item list that change tasks: \<^verbatim>\<open>addItem\<close> (with the id that
  \<^verbatim>\<open>createItemId\<close> draws and the trimmed input), \<^verbatim>\<open>removeItem\<close>, \<^verbatim>\<open>toggleSubTask\<close> and
  \<^verbatim>\<open>handleDrop\<close> (with the id that the drag carries).  Each gives its setter an array or
  object it has just built, but for \<^verbatim>\<open>handleDrop\<close> of a task onto the column it is mapped to,
  which hands the column map back as it is.
\<close>

definition column_of :: "World \<Rightarrow> string \<Rightarrow> ColumnId" where
  "column_of w i = (case map_of (columnById w) i of None \<Rightarrow> DEFAULT_COLUMN | Some c \<Rightarrow> c)"

definition addItem :: "string \<Rightarrow> string \<Rightarrow> World \<Rightarrow> World" where
  "addItem new_id nextValue w =
     (if nextValue = [] then w
      else setColumnById (New_reference (AList.update new_id DEFAULT_COLUMN (columnById w)))
             (setItems (New_reference (items w @ [\<lparr>task_id = new_id, task_label = nextValue,
                                                    link = None, subTasks = []\<rparr>])) w))"

definition removeItem :: "string \<Rightarrow> World \<Rightarrow> World" where
  "removeItem idToRemove w =
     (let w1 = deleteDocumentsByTaskId idToRemove w;
          w2 = setItems (New_reference (filter (\<lambda>item. task_id item \<noteq> idToRemove) (items w1))) w1
      in setColumnById (New_reference (AList.delete idToRemove (columnById w2))) w2)"

definition handleDrop :: "string \<Rightarrow> ColumnId \<Rightarrow> World \<Rightarrow> World" where
  "handleDrop itemId columnId w =
     (if itemId = [] then w
      else setColumnById
             (if map_of (columnById w) itemId = Some columnId then Same_reference
              else New_reference (AList.update itemId columnId (columnById w))) w)"

definition toggled :: "string \<Rightarrow> TaskRecord \<Rightarrow> TaskRecord" where
  "toggled subTaskId item =
     item\<lparr>subTasks := map (\<lambda>st. if subtask_id st = subTaskId
                                   then st\<lparr>completed := \<not> completed st\<rparr> else st)
                           (subTasks item)\<rparr>"

text \<open>
  \<^verbatim>\<open>toggleSubTask\<close>: inside the update of the items, every task with the edited id whose
  sub-tasks now hold a completed one, and whose column (read from the \<^verbatim>\<open>columnById\<close> of the
  render) is \<^verbatim>\<open>column-1\<close>, has its column set to \<^verbatim>\<open>column-2\<close>.
\<close>

definition toggleSubTask :: "string \<Rightarrow> World \<Rightarrow> World" where
  "toggleSubTask subTaskId w =
     (case editingItemId w of
        None \<Rightarrow> w
      | Some editing \<Rightarrow>
          if editing = [] then w
          else
            (let movers = filter (\<lambda>item. task_id item = editing
                                     \<and> list_ex completed (subTasks (toggled subTaskId item))
                                     \<and> column_of w (task_id item) = column_1) (items w);
                 w1 = setItems (New_reference
                                  (map (\<lambda>item. if task_id item \<noteq> editing then item
                                               else toggled subTaskId item) (items w))) w
             in fold (\<lambda>item w'. setColumnById
                                   (New_reference
                                      (AList.update (task_id item) column_2 (columnById w'))) w')
                  movers w1))"

text \<open>The deadlines of the timers that are pending.\<close>

definition deadlines :: "World \<Rightarrow> nat list" where
  "deadlines w =
     (case itemsTimeoutRef w of None \<Rightarrow> [] | Some (deadline, v) \<Rightarrow> [deadline])
     @ (case columnByIdTimeoutRef w of None \<Rightarrow> [] | Some (deadline, v) \<Rightarrow> [deadline])
     @ (case viewModeTimeoutRef w of None \<Rightarrow> [] | Some (deadline, v) \<Rightarrow> [deadline])
     @ (case saveTimeoutRef w of None \<Rightarrow> [] | Some deadline \<Rightarrow> [deadline])"

subsection \<open>Reachable states\<close>

text \<open>
  When the hooks have just been hydrated, the document hook has scheduled nothing: its
  timer is not set, its map of pending saves is empty and no save loop runs.  The task
  hook has set \<^verbatim>\<open>hasHydratedRef\<close> and the states it loaded, so the effects of the states
  that changed have run and their timers are pending; \<open>hydrated\<close> leaves the three timers of
  the task hook open.  The reachable states are the ones that the operations above lead to
  from there; opening a task in the editor sets \<^verbatim>\<open>editingItemId\<close>.
\<close>

definition hydrated :: "World \<Rightarrow> bool" where
  "hydrated w =
     (hasHydratedRef w \<and> saveTimeoutRef w = None \<and> pendingSavesRef w = []
      \<and> inFlightSaves w = [])"

inductive reachable :: "World \<Rightarrow> bool" where
  start: "hydrated w \<Longrightarrow> reachable w"
| setItems: "reachable w \<Longrightarrow> reachable (setItems v w)"
| setColumnById: "reachable w \<Longrightarrow> reachable (setColumnById c w)"
| setViewMode: "reachable w \<Longrightarrow> reachable (setViewMode m w)"
| task_flush: "reachable w \<Longrightarrow> reachable (task_flushPendingSaves w)"
| addDocument: "reachable w \<Longrightarrow> reachable (addDocument n t l w)"
| updateDocument: "reachable w \<Longrightarrow> reachable (updateDocument i nt nc w)"
| deleteDocument: "reachable w \<Longrightarrow> reachable (deleteDocument i w)"
| deleteDocumentsByTaskId: "reachable w \<Longrightarrow> reachable (deleteDocumentsByTaskId t w)"
| document_flush: "reachable w \<Longrightarrow> reachable (document_flushPendingSaves w)"
| addItem: "reachable w \<Longrightarrow> reachable (addItem n l w)"
| removeItem: "reachable w \<Longrightarrow> reachable (removeItem i w)"
| toggleSubTask: "reachable w \<Longrightarrow> reachable (toggleSubTask s w)"
| handleDrop: "reachable w \<Longrightarrow> reachable (handleDrop i c w)"
| openEditor: "reachable w \<Longrightarrow> reachable (w\<lparr>editingItemId := e\<rparr>)"
| setImportInProgress: "reachable w \<Longrightarrow> reachable (setImportInProgress b w)"
| advance: "reachable w \<Longrightarrow> reachable (advance d w)"
| resume: "reachable w \<Longrightarrow> reachable (resume i w)"

text \<open>
  Every pending save is the save of a document that is in memory, under its id and with
  its \<^verbatim>\<open>taskId\<close>.
\<close>

definition pending_in_memory :: "World \<Rightarrow> bool" where
  "pending_in_memory w =
     list_all (\<lambda>(k, d). list_ex (\<lambda>doc. doc_id doc = k \<and> taskId doc = taskId d) (documents w))
       (pendingSavesRef w)"

text \<open>No record of a table of documents belongs to the task.\<close>

definition none_of_task :: "string \<Rightarrow> table \<Rightarrow> bool" where
  "none_of_task task t = list_all (\<lambda>r. field (Some r) ''taskId'' \<noteq> Some (JStr task)) t"

text \<open>No save loop that is running has a document of the task still to save.\<close>

definition none_in_flight :: "string \<Rightarrow> World \<Rightarrow> bool" where
  "none_in_flight task w = list_all (list_all (\<lambda>d. taskId d \<noteq> task)) (inFlightSaves w)"

text \<open>What happens later on its own: time passes, or a save loop goes on.\<close>

datatype later = Time_passes nat | Save_resumes nat

fun after :: "later \<Rightarrow> World \<Rightarrow> World" where
  "after (Time_passes d) w = advance d w"
| "after (Save_resumes i) w = resume i w"

subsection \<open>Bursts of mutations\<close>

text \<open>
  A burst on one slice: a first mutation, and then further ones, each after a gap of some
  milliseconds.  The setters of the task hook are the mutations of its three slices, each
  called with a new array or object, or with a view mode; \<^verbatim>\<open>scheduleSave\<close> is the one of the
  document hook, which \<^verbatim>\<open>addDocument\<close> and \<^verbatim>\<open>updateDocument\<close> go through.
\<close>

fun burst_items :: "TaskRecord list \<Rightarrow> (nat \<times> TaskRecord list) list \<Rightarrow> World \<Rightarrow> World" where
  "burst_items v [] w = setItems (New_reference v) w"
| "burst_items v ((gap, v') # rest) w =
     burst_items v' rest (advance gap (setItems (New_reference v) w))"

fun burst_columnById ::
  "(string \<times> ColumnId) list \<Rightarrow> (nat \<times> (string \<times> ColumnId) list) list \<Rightarrow> World \<Rightarrow> World" where
  "burst_columnById v [] w = setColumnById (New_reference v) w"
| "burst_columnById v ((gap, v') # rest) w =
     burst_columnById v' rest (advance gap (setColumnById (New_reference v) w))"

fun burst_viewMode :: "ViewMode \<Rightarrow> (nat \<times> ViewMode) list \<Rightarrow> World \<Rightarrow> World" where
  "burst_viewMode v [] w = setViewMode v w"
| "burst_viewMode v ((gap, v') # rest) w = burst_viewMode v' rest (advance gap (setViewMode v w))"

fun burst_saves :: "DocumentRecord \<Rightarrow> (nat \<times> DocumentRecord) list \<Rightarrow> World \<Rightarrow> World" where
  "burst_saves doc [] w = scheduleSave doc w"
| "burst_saves doc ((gap, doc') # rest) w = burst_saves doc' rest (advance gap (scheduleSave doc w))"

text \<open>The writes of the log that belong to one slice.\<close>

fun is_SaveTasks :: "store_write \<Rightarrow> bool" where
  "is_SaveTasks (SaveTasks v) = True"
| "is_SaveTasks x = False"

fun is_SetSetting :: "string \<Rightarrow> store_write \<Rightarrow> bool" where
  "is_SetSetting key (SetSetting k v) = (k = key)"
| "is_SetSetting key x = False"

fun is_SaveDocument :: "store_write \<Rightarrow> bool" where
  "is_SaveDocument (SaveDocument d) = True"
| "is_SaveDocument x = False"

text \<open>Every value of the list differs from the one before it, the first from \<open>current\<close>.\<close>

fun changing :: "'a \<Rightarrow> 'a list \<Rightarrow> bool" where
  "changing current [] = True"
| "changing current (v # vs) = (v \<noteq> current \<and> changing v vs)"

text \<open>Every gap of a burst is shorter than the delay.\<close>

definition gaps_below :: "nat \<Rightarrow> (nat \<times> 'a) list \<Rightarrow> bool" where
  "gaps_below delay rest = list_all (\<lambda>(gap, v). gap < delay) rest"

section \<open>Example values\<close>

text \<open>Concrete backups, stores and hook states on which the theorems below are run.\<close>

definition backup_v2 :: json where
  "backup_v2 = JObj [(''version'', JNum 2), (''tasks'', JArr []), (''documents'', JArr []),
     (''settings'', JObj [(''columnById'', JObj []), (''viewMode'', JStr ''list'')])]"


definition task_a :: json where
  "task_a = JObj [(''id'', JStr ''a''), (''label'', JStr ''write''), (''subTasks'', JArr [])]"

definition task_b :: json where
  "task_b = JObj [(''id'', JStr ''b''), (''label'', JStr ''read''),
     (''subTasks'', JArr [JObj [(''id'', JStr ''s1''), (''label'', JStr ''page 1''),
                                (''completed'', JBool True)]])]"

definition doc_of_a :: json where
  "doc_of_a = JObj [(''id'', JStr ''d1''), (''taskId'', JStr ''a''), (''title'', JStr ''notes''),
     (''content'', JObj [(''type'', JStr ''doc'')]), (''createdAt'', JNum 5), (''updatedAt'', JNum 7)]"

definition doc_of_nobody :: json where
  "doc_of_nobody = JObj [(''id'', JStr ''d2''), (''taskId'', JStr ''zz''), (''title'', JStr ''lost''),
     (''content'', JObj [(''type'', JStr ''doc'')]), (''createdAt'', JNum 6), (''updatedAt'', JNum 6)]"

definition settings_ab :: "table" where
  "settings_ab =
     [JObj [(''key'', JStr ''columnById''), (''value'', JObj [(''a'', JStr ''column-2'')])],
      JObj [(''key'', JStr ''viewMode''), (''value'', JStr ''columns'')]]"

definition empty_store :: Store where
  "empty_store = \<lparr>db_tasks = [], db_settings = [], db_documents = []\<rparr>"

definition store_ab :: Store where
  "store_ab = \<lparr>db_tasks = [task_a, task_b], db_settings = settings_ab, db_documents = [doc_of_a]\<rparr>"

definition store_with_orphan :: Store where
  "store_with_orphan =
     \<lparr>db_tasks = [task_a, task_b], db_settings = settings_ab,
      db_documents = [doc_of_a, doc_of_nobody]\<rparr>"

definition backup_with_orphan :: json where
  "backup_with_orphan =
     JObj [(''version'', JNum 1), (''exportedAt'', JStr ''2026-01-01T00:00:00.000Z''),
           (''tasks'', JArr [task_a, task_b]),
           (''documents'', JArr [doc_of_a, doc_of_nobody]),
           (''settings'', JObj [(''columnById'', JObj [(''a'', JStr ''column-2'')]),
                                (''viewMode'', JStr ''columns'')])]"

definition item_a :: TaskRecord where
  "item_a = \<lparr>task_id = ''a'', task_label = ''write'', link = None, subTasks = []\<rparr>"

definition item_b :: TaskRecord where
  "item_b = \<lparr>task_id = ''b'', task_label = ''read'', link = None,
              subTasks = [\<lparr>subtask_id = ''s1'', subtask_label = ''page 1'', completed = False\<rparr>]\<rparr>"

definition document_d1 :: DocumentRecord where
  "document_d1 = \<lparr>doc_id = ''d1'', taskId = ''a'', title = ''notes'',
                   content = JObj [(''type'', JStr ''doc'')], createdAt = 5, updatedAt = 7\<rparr>"

definition document_d3 :: DocumentRecord where
  "document_d3 = \<lparr>doc_id = ''d3'', taskId = ''b'', title = ''plan'',
                   content = JObj [(''type'', JStr ''doc'')], createdAt = 8, updatedAt = 8\<rparr>"

definition world0 :: World where
  "world0 =
     \<lparr>store = store_ab, importInProgress = False, clock = 0, writes = [],
      items = [item_a, item_b], columnById = [(''a'', column_2)], viewMode = mode_columns,
      hasHydratedRef = True, itemsTimeoutRef = None, columnByIdTimeoutRef = None,
      viewModeTimeoutRef = None, documents = [document_d1], saveTimeoutRef = None,
      pendingSavesRef = [], inFlightSaves = [], editingItemId = None\<rparr>"

definition world_editing_b :: World where
  "world_editing_b = world0\<lparr>editingItemId := Some ''b''\<rparr>"

definition world_suspended :: World where
  "world_suspended =
     setImportInProgress True
       (scheduleSave document_d3 (setItems (New_reference [item_a]) world0))"

definition world_edited :: World where
  "world_edited = updateDocument ''d1'' (Some ''new title'') None world0"

text \<open>
  Two documents were changed within the window, first the new one of task \<open>b\<close> and then the
  one of task \<open>a\<close>; the timer has fired, and its loop waits for its first write.
\<close>

definition world_saving :: World where
  "world_saving =
     advance 300 (updateDocument ''d1'' (Some ''new title'') None
                    (addDocument ''d3'' ''b'' ''plan'' world0))"

definition store_calendar :: Store where
  "store_calendar =
     \<lparr>db_tasks = [task_a],
      db_settings = [JObj [(''key'', JStr ''viewMode''), (''value'', JStr ''calendar'')]],
      db_documents = [doc_of_a]\<rparr>"

definition backup_array_columnById :: json where
  "backup_array_columnById =
     JObj [(''version'', JNum 1), (''tasks'', JArr []), (''documents'', JArr []),
           (''settings'', JObj [(''columnById'', JArr []), (''viewMode'', JStr ''list'')])]"

definition backup_calendar :: json where
  "backup_calendar =
     JObj [(''version'', JNum 1), (''exportedAt'', JStr ''2026-01-01T00:00:00.000Z''),
           (''tasks'', JArr [task_a]), (''documents'', JArr [doc_of_a]),
           (''settings'', JObj [(''columnById'', JObj [(''a'', JStr ''column-2'')]),
                                (''viewMode'', JStr ''calendar'')])]"
section \<open>Evaluation of the examples\<close>

lemmas example_defs = task_a_def task_b_def doc_of_a_def doc_of_nobody_def settings_ab_def
  empty_store_def store_ab_def store_with_orphan_def backup_with_orphan_def

lemmas codec_defs = exportData_def getAllTasks_def getAllDocuments_def getSetting_def
  Table_toArray_def Table_get_def key_of_def EXPORT_VERSION_def

lemmas import_defs = importAllData_def bind_js_def array_of_def Set_has.simps Table_bulkAdd.simps
  Table_add_def Table_put_def Table_clear_def Table_get_def key_of_def

lemmas validate_defs = validateImportData_def bind_js_def check_task_def check_document_def
  check_settings_def is_valid_def validViewModes_def EXPORT_VERSION_def


lemmas world_defs = world0_def item_a_def item_b_def document_d1_def document_d3_def


lemmas hook_defs = addDocument_def updateDocument_def scheduleSave_def updated_document_def
  advance_def fire_itemsTimeout_def fire_columnByIdTimeout_def fire_viewModeTimeout_def
  fire_saveTimeout_def saveTimeout_callback_def issue_saveDocument_def caught_def
  saveDocument_def Table_put_def key_of_def bind_js_def DocumentRecord_json_def Let_def
  DOCUMENT_DEBOUNCE_MS_def TASK_DEBOUNCE_MS_def

section \<open>Properties of validation\<close>

lemma get_field: "truthy v \<Longrightarrow> typeof v = T_object \<Longrightarrow> get v k = Inr (field v k)"
  by (cases "(v, k)" rule: get.cases) simp_all

lemma truthy_object: "(truthy v \<and> typeof v = T_object) = is_object v"
  by (cases v rule: is_object.cases) simp_all

lemma typeof_string: "(typeof v = T_string) = is_string v"
  by (cases v rule: is_string.cases) simp_all

lemma check_task_result:
  "check_task t =
     Inr (if task_shape t then None
          else Some (invalid (if \<not> is_object (Some t) then Invalid_task_entry
                              else if \<not> (is_string (field (Some t) ''id'')
                                          \<and> is_string (field (Some t) ''label''))
                                   then Task_missing_fields
                                   else Task_missing_subTasks)))"
proof (cases "is_object (Some t)")
  case False
  then have "\<not> truthy (Some t) \<or> typeof (Some t) \<noteq> T_object"
    using truthy_object [of "Some t"] by blast
  moreover from False have "\<not> task_shape t"
    by (cases t) (simp_all add: task_shape_def)
  ultimately show ?thesis
    using False by (simp add: check_task_def)
next
  case True
  then have obj: "truthy (Some t)" "typeof (Some t) = T_object"
    using truthy_object [of "Some t"] by blast+
  show ?thesis
    using True
    by (simp add: check_task_def obj get_field bind_js_def typeof_string task_shape_def)
qed

lemma check_document_result:
  "check_document d =
     Inr (if document_shape d then None
          else Some (invalid (if \<not> is_object (Some d) then Invalid_document_entry
                              else Document_missing_fields)))"
proof (cases "is_object (Some d)")
  case False
  then have "\<not> truthy (Some d) \<or> typeof (Some d) \<noteq> T_object"
    using truthy_object [of "Some d"] by blast
  moreover from False have "\<not> document_shape d"
    by (cases d) (simp_all add: document_shape_def)
  ultimately show ?thesis
    using False by (simp add: check_document_def)
next
  case True
  then have obj: "truthy (Some d)" "typeof (Some d) = T_object"
    using truthy_object [of "Some d"] by blast+
  show ?thesis
    using True
    by (simp add: check_document_def obj get_field bind_js_def typeof_string document_shape_def)
qed

lemma check_tasks_result:
  "\<exists>r. check_tasks ts = Inr r \<and> (r = None) = list_all task_shape ts
       \<and> (case r of None \<Rightarrow> True | Some res \<Rightarrow> \<not> valid res \<and> map_option check_of (error res) = Some 3)"
proof (induction ts)
  case Nil
  show ?case by simp
next
  case (Cons t ts)
  show ?case
  proof (cases "task_shape t")
    case True
    with Cons show ?thesis
      by (simp add: check_task_result bind_js_def)
  next
    case False
    then show ?thesis
      by (simp add: check_task_result bind_js_def invalid_def)
  qed
qed

lemma check_documents_result:
  "\<exists>r. check_documents ds = Inr r \<and> (r = None) = list_all document_shape ds
       \<and> (case r of None \<Rightarrow> True | Some res \<Rightarrow> \<not> valid res \<and> map_option check_of (error res) = Some 4)"
proof (induction ds)
  case Nil
  show ?case by simp
next
  case (Cons d ds)
  show ?case
  proof (cases "document_shape d")
    case True
    with Cons show ?thesis
      by (simp add: check_document_result bind_js_def)
  next
    case False
    then show ?thesis
      by (simp add: check_document_result bind_js_def invalid_def)
  qed
qed

lemma object_not_null: "(typeof v = T_object \<and> v \<noteq> Some JNull) = is_object v"
  by (cases v rule: is_object.cases) simp_all

lemma includes_validViewModes: "array_includes validViewModes v = codec_viewMode v"
  by (cases "(validViewModes, v)" rule: array_includes.cases)
     (auto simp: validViewModes_def codec_viewMode_def)

lemma check_settings_result:
  "check_settings s =
     Inr (if \<not> is_object s then invalid Missing_or_invalid_settings
          else if \<not> is_object (field s ''columnById'') then invalid Missing_or_invalid_columnById
          else if \<not> codec_viewMode (field s ''viewMode'') then invalid Invalid_viewMode
          else is_valid)"
proof (cases "is_object s")
  case False
  then have "\<not> truthy s \<or> typeof s \<noteq> T_object"
    using truthy_object [of s] by blast
  then show ?thesis
    using False by (simp add: check_settings_def)
next
  case True
  then have obj: "truthy s" "typeof s = T_object"
    using truthy_object [of s] by blast+
  have col: "(typeof c \<noteq> T_object \<or> c = Some JNull) = (\<not> is_object c)" for c
    using object_not_null [of c] by blast
  show ?thesis
    using True object_not_null [of "field s ''columnById''"]
    by (auto simp: check_settings_def obj get_field bind_js_def includes_validViewModes)
qed

lemma version_cases:
  "(\<exists>n. v = Some (JNum n)) \<or> (\<not> is_number v)"
  by (cases v rule: is_number.cases) simp_all

lemma validate_checks:
  "\<exists>r. validateImportData data = Inr r
     \<and> valid r = (check1 data \<and> check2 data \<and> check3 data \<and> check4 data \<and> check5 data)
     \<and> map_option check_of (error r) = first_failed_check data
     \<and> (error r = None) = valid r"
proof (cases "is_object data")
  case False
  then have "\<not> truthy data \<or> typeof data \<noteq> T_object"
    using truthy_object [of data] by blast
  then show ?thesis
    using False
    by (simp add: validateImportData_def invalid_def check1_def first_failed_check_def)
next
  case obj: True
  then have o: "truthy data" "typeof data = T_object"
    using truthy_object [of data] by blast+
  note g = get_field [OF o]
  show ?thesis
  proof (cases "check2 data")
    case False
    then show ?thesis
      using obj version_cases [of "field data ''version''"]
      by (auto simp: validateImportData_def o g bind_js_def invalid_def check1_def check2_def
            first_failed_check_def split: option.splits json.splits)
  next
    case c2: True
    then obtain n where n: "field data ''version'' = Some (JNum n)" "n \<le> EXPORT_VERSION"
      using version_cases [of "field data ''version''"] by (auto simp: check2_def)
    show ?thesis
    proof (cases "isArray (field data ''tasks'')")
      case False
      then show ?thesis
        using obj c2 n
        by (simp add: validateImportData_def o g bind_js_def invalid_def check1_def check3_def
              first_failed_check_def)
    next
      case arr3: True
      obtain r3 where r3: "check_tasks (elements (field data ''tasks'')) = Inr r3"
        "(r3 = None) = list_all task_shape (elements (field data ''tasks''))"
        "case r3 of None \<Rightarrow> True | Some res \<Rightarrow> \<not> valid res \<and> map_option check_of (error res) = Some 3"
        using check_tasks_result by blast
      show ?thesis
      proof (cases r3)
        case (Some res)
        then show ?thesis
          using obj c2 n arr3 r3
          by (auto simp: validateImportData_def o g bind_js_def check1_def check3_def
                first_failed_check_def)
      next
        case None
        then have c3: "check3 data" using arr3 r3 by (simp add: check3_def)
        show ?thesis
        proof (cases "isArray (field data ''documents'')")
          case False
          then show ?thesis
            using obj c2 n arr3 r3 None c3
            by (simp add: validateImportData_def o g bind_js_def invalid_def check1_def check4_def
                  first_failed_check_def)
        next
          case arr4: True
          obtain r4 where r4: "check_documents (elements (field data ''documents'')) = Inr r4"
            "(r4 = None) = list_all document_shape (elements (field data ''documents''))"
            "case r4 of None \<Rightarrow> True | Some res \<Rightarrow> \<not> valid res \<and> map_option check_of (error res) = Some 4"
            using check_documents_result by blast
          show ?thesis
          proof (cases r4)
            case (Some res)
            then show ?thesis
              using obj c2 n arr3 r3 None c3 arr4 r4
              by (auto simp: validateImportData_def o g bind_js_def check1_def check4_def
                    first_failed_check_def)
          next
            case n4: None
            then have c4: "check4 data" using arr4 r4 by (simp add: check4_def)
            show ?thesis
              using obj c2 n arr3 r3 None c3 arr4 r4 n4 c4
              by (simp add: validateImportData_def o g bind_js_def check1_def check5_def
                    first_failed_check_def check_settings_result invalid_def is_valid_def)
          qed
        qed
      qed
    qed
  qed
qed

lemma spec_object_is_object: "spec_object v \<Longrightarrow> is_object v"
  by (cases v rule: spec_object.cases) simp_all

lemma is_object_field: "is_object (field v k) \<Longrightarrow> spec_object v"
  by (cases v rule: spec_object.cases) simp_all

lemma is_number_field: "is_number (field v k) \<Longrightarrow> spec_object v"
  by (cases v rule: spec_object.cases) simp_all

lemma is_object_not_array: "is_object v \<Longrightarrow> \<not> isArray v \<Longrightarrow> spec_object v"
  by (cases v rule: is_object.cases) simp_all

lemma spec_checks_accepted:
  assumes "spec_checks data"
    and "field (field data ''settings'') ''viewMode'' \<noteq> Some (JStr ''calendar'')"
  shows "check1 data \<and> check2 data \<and> check3 data \<and> check4 data \<and> check5 data"
  using assms
  by (auto simp: spec_checks_def spec_check1_def spec_check5_def check1_def check5_def
        spec_viewMode_def codec_viewMode_def spec_object_is_object)

lemma accepted_spec_checks:
  assumes "check1 data \<and> check2 data \<and> check3 data \<and> check4 data \<and> check5 data"
    and "\<not> isArray (field (field data ''settings'') ''columnById'')"
  shows "spec_checks data"
proof -
  have "spec_object data"
    using assms(1) is_number_field [of data "''version''"] by (simp add: check2_def)
  moreover have "spec_object (field data ''settings'')"
    using assms(1) is_object_field [of "field data ''settings''" "''columnById''"]
    by (simp add: check5_def)
  moreover have "spec_object (field (field data ''settings'') ''columnById'')"
    using assms is_object_not_array by (simp add: check5_def)
  moreover have "spec_viewMode (field (field data ''settings'') ''viewMode'')"
    using assms(1) by (auto simp: check5_def codec_viewMode_def spec_viewMode_def)
  ultimately show ?thesis
    using assms(1) by (simp add: spec_checks_def spec_check1_def spec_check5_def)
qed

text \<open>
  The validator does not make the five checks as the specification words them.  A backup
  whose view mode is \<^verbatim>\<open>calendar\<close>, a mode of the supported enum, passes the five checks
  of the specification and is refused, for its view mode.  A backup whose \<^verbatim>\<open>columnById\<close>
  is an array fails check 5 of the specification and is accepted.
\<close>

theorem validateImportData_spec_counterexample:
  "spec_checks (Some backup_calendar)
   \<and> validateImportData (Some backup_calendar)
       = Inr \<lparr>valid = False, error = Some Invalid_viewMode\<rparr>
   \<and> spec_check5 (Some backup_array_columnById) = False
   \<and> validateImportData (Some backup_array_columnById) = Inr \<lparr>valid = True, error = None\<rparr>"
proof -
  have "spec_check1 (Some backup_calendar)"
    by (simp add: spec_check1_def backup_calendar_def)
  moreover have "check2 (Some backup_calendar)"
    by (simp add: check2_def backup_calendar_def EXPORT_VERSION_def)
  moreover have "check3 (Some backup_calendar)"
    by (simp add: check3_def backup_calendar_def task_shape_def task_a_def)
  moreover have "check4 (Some backup_calendar)"
    by (simp add: check4_def backup_calendar_def document_shape_def doc_of_a_def)
  moreover have "spec_check5 (Some backup_calendar)"
    by (simp add: spec_check5_def backup_calendar_def spec_viewMode_def)
  ultimately have "spec_checks (Some backup_calendar)"
    by (simp add: spec_checks_def)
  moreover have "validateImportData (Some backup_calendar)
       = Inr \<lparr>valid = False, error = Some Invalid_viewMode\<rparr>"
    by (simp add: validate_defs invalid_def backup_calendar_def task_a_def doc_of_a_def)
  moreover have "spec_check5 (Some backup_array_columnById) = False"
    by (simp add: spec_check5_def backup_array_columnById_def)
  moreover have "validateImportData (Some backup_array_columnById)
       = Inr \<lparr>valid = True, error = None\<rparr>"
    by (simp add: validate_defs invalid_def backup_array_columnById_def)
  ultimately show ?thesis
    by blast
qed

text \<open>
  Claim C4, as amended.  On every input value \<^verbatim>\<open>validateImportData\<close> returns a result and
  throws nothing.  The result is valid exactly when the five checks that the validator
  makes all hold: (1) the value is an object or an array, (2) \<^verbatim>\<open>version\<close> is a number not
  above the supported version, (3) \<^verbatim>\<open>tasks\<close> is an array whose elements each have a string
  \<^verbatim>\<open>id\<close>, a string \<^verbatim>\<open>label\<close> and an array \<^verbatim>\<open>subTasks\<close>, (4) \<^verbatim>\<open>documents\<close> is an array whose
  elements each have string \<^verbatim>\<open>id\<close>, \<^verbatim>\<open>taskId\<close> and \<^verbatim>\<open>title\<close>, (5) \<^verbatim>\<open>settings\<close> is an object
  or an array, with a \<^verbatim>\<open>columnById\<close> that is an object or an array and a \<^verbatim>\<open>viewMode\<close> that is
  \<^verbatim>\<open>list\<close>, \<^verbatim>\<open>columns\<close> or \<^verbatim>\<open>documents\<close>.  An invalid result carries a reason, and the
  reason belongs to the first check, in that order, that fails.  Against the five checks
  as the specification words them: an input that passes those and whose view mode is not
  \<^verbatim>\<open>calendar\<close> is valid, and a valid input whose \<^verbatim>\<open>columnById\<close> is not an array passes
  those.
\<close>

theorem validateImportData_five_checks:
  "\<exists>r. validateImportData data = Inr r
     \<and> valid r = (check1 data \<and> check2 data \<and> check3 data \<and> check4 data \<and> check5 data)
     \<and> map_option check_of (error r) = first_failed_check data
     \<and> (error r = None) = valid r
     \<and> (spec_checks data
          \<and> field (field data ''settings'') ''viewMode'' \<noteq> Some (JStr ''calendar'')
          \<longrightarrow> valid r)
     \<and> (valid r \<and> \<not> isArray (field (field data ''settings'') ''columnById'')
          \<longrightarrow> spec_checks data)"
proof -
  from validate_checks [of data] obtain r where
    r: "validateImportData data = Inr r
        \<and> valid r = (check1 data \<and> check2 data \<and> check3 data \<and> check4 data \<and> check5 data)
        \<and> map_option check_of (error r) = first_failed_check data
        \<and> (error r = None) = valid r" ..
  then have v: "valid r = (check1 data \<and> check2 data \<and> check3 data \<and> check4 data \<and> check5 data)"
    by simp
  have a: "spec_checks data
          \<and> field (field data ''settings'') ''viewMode'' \<noteq> Some (JStr ''calendar'')
          \<longrightarrow> valid r"
    unfolding v using spec_checks_accepted [of data] by simp
  have b: "valid r \<and> \<not> isArray (field (field data ''settings'') ''columnById'')
          \<longrightarrow> spec_checks data"
    unfolding v using accepted_spec_checks [of data] by simp
  show ?thesis
  proof (rule exI [of _ r], intro conjI)
    show "validateImportData data = Inr r" using r by simp
    show "valid r = (check1 data \<and> check2 data \<and> check3 data \<and> check4 data \<and> check5 data)"
      by (rule v)
    show "map_option check_of (error r) = first_failed_check data" using r by simp
    show "(error r = None) = valid r" using r by simp
    show "spec_checks data
          \<and> field (field data ''settings'') ''viewMode'' \<noteq> Some (JStr ''calendar'')
          \<longrightarrow> valid r"
      by (rule a)
    show "valid r \<and> \<not> isArray (field (field data ''settings'') ''columnById'')
          \<longrightarrow> spec_checks data"
      by (rule b)
  qed
qed

theorem validateImportData_five_checks_witness:
  "(\<exists>r. validateImportData (Some (JObj [(''version'', JNum 1), (''tasks'', JArr [])])) = Inr r
      \<and> \<not> valid r
      \<and> map_option check_of (error r) = Some 4
      \<and> (error r = None) = valid r)
   \<and> spec_checks (Some backup_with_orphan)
   \<and> field (field (Some backup_with_orphan) ''settings'') ''viewMode'' \<noteq> Some (JStr ''calendar'')
   \<and> \<not> isArray (field (field (Some backup_with_orphan) ''settings'') ''columnById'')
   \<and> (\<exists>r. validateImportData (Some backup_with_orphan) = Inr r \<and> valid r)"
proof -
  have first: "\<exists>r. validateImportData (Some (JObj [(''version'', JNum 1), (''tasks'', JArr [])])) = Inr r
      \<and> \<not> valid r
      \<and> map_option check_of (error r) = Some 4
      \<and> (error r = None) = valid r"
  proof -
    let ?x = "Some (JObj [(''version'', JNum 1), (''tasks'', JArr [])])"
    from validateImportData_five_checks [of ?x] obtain r where
      r: "validateImportData ?x = Inr r
          \<and> valid r = (check1 ?x \<and> check2 ?x \<and> check3 ?x \<and> check4 ?x \<and> check5 ?x)
          \<and> map_option check_of (error r) = first_failed_check ?x
          \<and> (error r = None) = valid r
          \<and> (spec_checks ?x
               \<and> field (field ?x ''settings'') ''viewMode'' \<noteq> Some (JStr ''calendar'')
               \<longrightarrow> valid r)
          \<and> (valid r \<and> \<not> isArray (field (field ?x ''settings'') ''columnById'')
               \<longrightarrow> spec_checks ?x)" ..
    have c: "check1 ?x" "check2 ?x" "check3 ?x" "\<not> check4 ?x"
      by (simp_all add: check1_def check2_def check3_def check4_def EXPORT_VERSION_def)
    then have f: "first_failed_check ?x = Some 4"
      by (simp add: first_failed_check_def)
    from r c have "\<not> valid r" by simp
    moreover from r f have "map_option check_of (error r) = Some 4" by simp
    moreover from r have "validateImportData ?x = Inr r" "(error r = None) = valid r"
      by simp_all
    ultimately have "validateImportData ?x = Inr r
      \<and> \<not> valid r
      \<and> map_option check_of (error r) = Some 4
      \<and> (error r = None) = valid r"
      by simp
    then show ?thesis ..
  qed
  have "spec_check1 (Some backup_with_orphan)"
    by (simp add: spec_check1_def backup_with_orphan_def)
  moreover have "check2 (Some backup_with_orphan)"
    by (simp add: check2_def backup_with_orphan_def EXPORT_VERSION_def)
  moreover have "check3 (Some backup_with_orphan)"
    by (simp add: check3_def backup_with_orphan_def task_shape_def task_a_def task_b_def)
  moreover have "check4 (Some backup_with_orphan)"
    by (simp add: check4_def backup_with_orphan_def document_shape_def doc_of_a_def
          doc_of_nobody_def)
  moreover have "spec_check5 (Some backup_with_orphan)"
    by (simp add: spec_check5_def backup_with_orphan_def spec_viewMode_def)
  ultimately have s: "spec_checks (Some backup_with_orphan)"
    by (simp add: spec_checks_def)
  have v: "field (field (Some backup_with_orphan) ''settings'') ''viewMode'' \<noteq> Some (JStr ''calendar'')"
    "\<not> isArray (field (field (Some backup_with_orphan) ''settings'') ''columnById'')"
    by (simp_all add: backup_with_orphan_def)
  have second: "\<exists>r. validateImportData (Some backup_with_orphan) = Inr r \<and> valid r"
  proof -
    let ?x = "Some backup_with_orphan"
    from validateImportData_five_checks [of ?x] obtain r where
      r: "validateImportData ?x = Inr r
          \<and> valid r = (check1 ?x \<and> check2 ?x \<and> check3 ?x \<and> check4 ?x \<and> check5 ?x)
          \<and> map_option check_of (error r) = first_failed_check ?x
          \<and> (error r = None) = valid r
          \<and> (spec_checks ?x
               \<and> field (field ?x ''settings'') ''viewMode'' \<noteq> Some (JStr ''calendar'')
               \<longrightarrow> valid r)
          \<and> (valid r \<and> \<not> isArray (field (field ?x ''settings'') ''columnById'')
               \<longrightarrow> spec_checks ?x)" ..
    then have "spec_checks ?x
               \<and> field (field ?x ''settings'') ''viewMode'' \<noteq> Some (JStr ''calendar'')
               \<longrightarrow> valid r"
      by (elim conjE)
    with s v(1) have "valid r" by simp
    moreover from r have "validateImportData ?x = Inr r" by simp
    ultimately have "validateImportData ?x = Inr r \<and> valid r" by simp
    then show ?thesis ..
  qed
  from first s v second show ?thesis
    by simp
qed
section \<open>Version rejection\<close>

lemma version_too_new:
  assumes "field data ''version'' = Some (JNum v)" and "EXPORT_VERSION < v"
  shows "validateImportData data = Inr (invalid (Version_too_new v))"
proof -
  from assms(1) obtain kvs where d: "data = Some (JObj kvs)"
    by (cases "(data, ''version'')" rule: field.cases) auto
  with assms show ?thesis
    by (simp add: validateImportData_def bind_js_def)
qed

text \<open>
  Claim C3.  An input whose \<^verbatim>\<open>version\<close> is a number above the supported version 1 is
  never accepted: \<^verbatim>\<open>validateImportData\<close> returns the invalid result that reports the
  newer version.  When the pasted text parses to such a value, \<^verbatim>\<open>handleConfirmImport\<close>
  stops with that error shown: the store is the one it started with, and the flag
  \<^verbatim>\<open>importInProgress\<close> is not touched.
\<close>

theorem version_rejection:
  assumes "field (Some d) ''version'' = Some (JNum v)" and "EXPORT_VERSION < v"
  shows "validateImportData (Some d) = Inr \<lparr>valid = False, error = Some (Version_too_new v)\<rparr>
     \<and> (\<forall>parse importText m.
           parse (trim importText) = Some d \<longrightarrow>
             handleConfirmImport parse importText m
               = m\<lparr>menu_error := Some (Parse_error (Version_too_new v)), menu_isLoading := False\<rparr>
             \<and> menu_db (handleConfirmImport parse importText m) = menu_db m
             \<and> menu_importInProgress (handleConfirmImport parse importText m)
                 = menu_importInProgress m)"
proof -
  have v: "validateImportData (Some d) = Inr (invalid (Version_too_new v))"
    using assms by (rule version_too_new)
  have "handleConfirmImport parse importText m
          = m\<lparr>menu_error := Some (Parse_error (Version_too_new v)), menu_isLoading := False\<rparr>"
    if "parse (trim importText) = Some d" for parse importText m
    using that v
    by (simp add: handleConfirmImport_def parseImportFile_def bind_js_def invalid_def)
  then show ?thesis
    using v by (simp add: invalid_def)
qed

theorem version_rejection_witness:
  "validateImportData (Some backup_v2) = Inr \<lparr>valid = False, error = Some (Version_too_new 2)\<rparr>
   \<and> menu_db (handleConfirmImport (\<lambda>s. if s = ''v2'' then Some backup_v2 else None) '' v2 ''
         \<lparr>menu_db = \<lparr>db_tasks = [JObj [(''id'', JStr ''a'')]], db_settings = [], db_documents = []\<rparr>,
          menu_importInProgress = False, menu_error = None, menu_isLoading = False\<rparr>)
     = \<lparr>db_tasks = [JObj [(''id'', JStr ''a'')]], db_settings = [], db_documents = []\<rparr>"
proof -
  have f: "field (Some backup_v2) ''version'' = Some (JNum 2)"
    by (simp add: backup_v2_def)
  have t: "trim '' v2 '' = ''v2''"
    by (simp add: trim_def)
  show ?thesis
    using version_rejection [OF f] t by (simp add: EXPORT_VERSION_def)
qed
section \<open>Tables\<close>

lemma bind_js_Inr: "bind_js (Inr x) f = f x"
  by (simp add: bind_js_def)

lemma bind_js_Inl: "bind_js (Inl e) f = Inl e"
  by (simp add: bind_js_def)

lemma Table_get_None: "(Table_get kp k t = None) = (Some k \<notin> set (map (key_of kp) t))"
  by (force simp: Table_get_def find_None_iff)

lemma mset_place:
  "Some k \<notin> set (map (key_of kp) t) \<Longrightarrow> mset (place kp k r t) = add_mset r (mset t)"
  by (induction t) (auto split: option.splits)

lemma keys_place:
  "key_of kp r = Some k \<Longrightarrow>
     set (map (key_of kp) (place kp k r t)) = insert (Some k) (set (map (key_of kp) t))"
  by (induction t) (auto split: option.splits)

lemma Table_add_Inr:
  "(Table_add kp r t = Inr t') =
     (\<exists>k. key_of kp r = Some k \<and> Some k \<notin> set (map (key_of kp) t) \<and> t' = place kp k r t)"
  using Table_get_None [of kp _ t]
  by (auto simp: Table_add_def split: option.splits)

lemma Table_bulkAdd_mset:
  "Table_bulkAdd kp rs t = Inr t' \<Longrightarrow> mset t' = mset rs + mset t"
proof (induction rs arbitrary: t)
  case Nil
  then show ?case by simp
next
  case (Cons r rs)
  from Cons.prems obtain t1 where a: "Table_add kp r t = Inr t1"
    and b: "Table_bulkAdd kp rs t1 = Inr t'"
    by (auto simp: bind_js_def split: sum.splits)
  from a have "mset t1 = add_mset r (mset t)"
    by (auto simp: Table_add_Inr mset_place)
  with Cons.IH [OF b] show ?case by simp
qed

lemma Table_bulkAdd_keys:
  "Table_bulkAdd kp rs t = Inr t' \<Longrightarrow>
     set (map (key_of kp) t') = set (map (key_of kp) rs) \<union> set (map (key_of kp) t)"
proof (induction rs arbitrary: t)
  case Nil
  then show ?case by simp
next
  case (Cons r rs)
  from Cons.prems obtain t1 where a: "Table_add kp r t = Inr t1"
    and b: "Table_bulkAdd kp rs t1 = Inr t'"
    by (auto simp: bind_js_def split: sum.splits)
  from a obtain k where k: "key_of kp r = Some k" "t1 = place kp k r t"
    by (auto simp: Table_add_Inr)
  then have "set (map (key_of kp) t1) = insert (Some k) (set (map (key_of kp) t))"
    using keys_place by blast
  with Cons.IH [OF b] k show ?case by auto
qed

lemma Table_bulkAdd_succeeds:
  "(\<exists>t'. Table_bulkAdd kp rs t = Inr t') =
     (None \<notin> set (map (key_of kp) rs) \<and> distinct (map (key_of kp) rs)
      \<and> set (map (key_of kp) rs) \<inter> set (map (key_of kp) t) = {})"
proof (induction rs arbitrary: t)
  case Nil
  show ?case by simp
next
  case (Cons r rs)
  show ?case
  proof (cases "\<exists>k. key_of kp r = Some k \<and> Some k \<notin> set (map (key_of kp) t)")
    case False
    then have "\<forall>t1. Table_add kp r t \<noteq> Inr t1"
      by (simp add: Table_add_Inr)
    then have "\<not> (\<exists>t'. Table_bulkAdd kp (r # rs) t = Inr t')"
      by (auto simp: bind_js_def split: sum.splits)
    moreover from False
    have "\<not> (None \<notin> set (map (key_of kp) (r # rs)) \<and> distinct (map (key_of kp) (r # rs))
      \<and> set (map (key_of kp) (r # rs)) \<inter> set (map (key_of kp) t) = {})"
      by (cases "key_of kp r") auto
    ultimately show ?thesis by blast
  next
    case True
    then obtain k where k: "key_of kp r = Some k" "Some k \<notin> set (map (key_of kp) t)"
      by blast
    then have a: "Table_add kp r t = Inr (place kp k r t)"
      by (simp add: Table_add_Inr)
    have ks: "set (map (key_of kp) (place kp k r t)) = insert (Some k) (set (map (key_of kp) t))"
      using k keys_place by blast
    define K where "K = set (map (key_of kp) rs)"
    define T where "T = set (map (key_of kp) t)"
    define D where "D = distinct (map (key_of kp) rs)"
    have kT: "Some k \<notin> T" using k by (simp add: T_def)
    have step: "(\<exists>t'. Table_bulkAdd kp (r # rs) t = Inr t')
            = (\<exists>t'. Table_bulkAdd kp rs (place kp k r t) = Inr t')"
      by (simp add: a bind_js_def)
    have "(\<exists>t'. Table_bulkAdd kp rs (place kp k r t) = Inr t')
            = (None \<notin> set (map (key_of kp) rs) \<and> distinct (map (key_of kp) rs)
               \<and> set (map (key_of kp) rs) \<inter> set (map (key_of kp) (place kp k r t)) = {})"
      by (rule Cons.IH)
    then have ih: "(\<exists>t'. Table_bulkAdd kp rs (place kp k r t) = Inr t')
            = (None \<notin> K \<and> D \<and> K \<inter> insert (Some k) T = {})"
      unfolding ks K_def [symmetric] T_def [symmetric] D_def [symmetric] .
    have s1: "set (map (key_of kp) (r # rs)) = insert (Some k) K"
      by (simp add: k K_def)
    have s2: "distinct (map (key_of kp) (r # rs)) = (Some k \<notin> K \<and> D)"
      by (simp add: k K_def D_def)
    have "(None \<notin> K \<and> D \<and> K \<inter> insert (Some k) T = {})
        = (None \<notin> insert (Some k) K \<and> (Some k \<notin> K \<and> D) \<and> insert (Some k) K \<inter> T = {})"
      using kT by auto
    then show ?thesis
      unfolding step ih s1 s2 T_def [symmetric] .
  qed
qed


section \<open>Import of a validated envelope\<close>

lemma valid_checks:
  assumes "validateImportData d = Inr r" and "valid r"
  shows "check1 d \<and> check2 d \<and> check3 d \<and> check4 d \<and> check5 d"
  using validate_checks [of d] assms by auto

lemma task_shape_object: "task_shape t \<Longrightarrow> \<exists>kvs. t = JObj kvs"
  by (cases t) (simp_all add: task_shape_def)

lemma document_shape_object: "document_shape d \<Longrightarrow> \<exists>kvs. d = JObj kvs"
  by (cases d) (simp_all add: document_shape_def)

lemma is_string_cases: "is_string v \<Longrightarrow> \<exists>s. v = Some (JStr s)"
  by (cases v rule: is_string.cases) simp_all

lemma task_shape_key: "task_shape t \<Longrightarrow> key_of ''id'' t \<noteq> None"
  by (auto simp: task_shape_def key_of_def dest!: is_string_cases)

lemma document_shape_key: "document_shape d \<Longrightarrow> key_of ''id'' d \<noteq> None"
  by (auto simp: document_shape_def key_of_def dest!: is_string_cases)

lemma map_js_ids:
  "list_all task_shape ts \<Longrightarrow> map_js (\<lambda>t. get (Some t) ''id'') ts = Inr (task_ids ts)"
proof (induction ts)
  case Nil
  show ?case by (simp add: task_ids_def)
next
  case (Cons t ts)
  then obtain kvs where "t = JObj kvs"
    using task_shape_object by auto
  with Cons show ?case
    by (simp add: task_ids_def bind_js_def)
qed

lemma filter_js_documents:
  "list_all document_shape ds \<Longrightarrow>
     filter_js (\<lambda>doc. bind_js (get (Some doc) ''taskId'') (\<lambda>taskId. Inr (Set_has ids taskId))) ds
       = Inr (filter (\<lambda>doc. field (Some doc) ''taskId'' \<in> set ids) ds)"
proof (induction ds)
  case Nil
  show ?case by simp
next
  case (Cons d ds)
  then obtain kvs where d: "d = JObj kvs"
    using document_shape_object by auto
  from Cons.prems obtain s where s: "field (Some d) ''taskId'' = Some (JStr s)"
    by (auto simp: document_shape_def dest: is_string_cases)
  from Cons d s show ?case
    by (simp add: bind_js_def)
qed

lemma is_object_get: "is_object v \<Longrightarrow> get v k = Inr (field v k)"
  using truthy_object [of v] get_field [of v k] by blast

lemma is_object_Some: "is_object v \<Longrightarrow> \<exists>x. v = Some x"
  by (cases v) simp_all

lemma isArray_cases: "isArray v \<Longrightarrow> \<exists>xs. v = Some (JArr xs)"
  by (cases v rule: isArray.cases) simp_all

lemma Table_bulkAdd_if:
  "(if length rs > 0 then Table_bulkAdd kp rs (Table_clear t) else Inr (Table_clear t))
     = Table_bulkAdd kp rs []"
  by (cases rs) (simp_all add: Table_clear_def)

lemma settings_puts:
  "bind_js (Table_put ''key'' (JObj [(''key'', JStr ''columnById''), (''value'', c)]) [])
      (\<lambda>settings1. bind_js (Table_put ''key'' (JObj [(''key'', JStr ''viewMode''), (''value'', v)])
                                settings1) f)
    = f [JObj [(''key'', JStr ''columnById''), (''value'', c)],
         JObj [(''key'', JStr ''viewMode''), (''value'', v)]]"
  by (simp add: Table_put_def key_of_def bind_js_Inr)

lemma importAllData_checked:
  assumes c3: "check3 (Some data)" and c4: "check4 (Some data)" and c5: "check5 (Some data)"
  shows "\<exists>c m. field (field (Some data) ''settings'') ''columnById'' = Some c
           \<and> field (field (Some data) ''settings'') ''viewMode'' = Some (JStr m)
           \<and> importAllData data db =
               bind_js (Table_bulkAdd ''id'' (envelope_tasks data) []) (\<lambda>new_tasks.
               bind_js (Table_bulkAdd ''id''
                          (filter (refers_to (envelope_tasks data)) (envelope_documents data)) [])
                 (\<lambda>new_documents.
                   Inr \<lparr>db_tasks = new_tasks,
                        db_settings = [JObj [(''key'', JStr ''columnById''), (''value'', c)],
                                       JObj [(''key'', JStr ''viewMode''), (''value'', JStr m)]],
                        db_documents = new_documents\<rparr>))"
proof -
  from c3 obtain ts where ts: "field (Some data) ''tasks'' = Some (JArr ts)" "list_all task_shape ts"
    by (auto simp: check3_def dest!: isArray_cases)
  from c4 obtain ds where ds: "field (Some data) ''documents'' = Some (JArr ds)"
    "list_all document_shape ds"
    by (auto simp: check4_def dest!: isArray_cases)
  from ts obtain kvs where data: "data = JObj kvs"
    by (cases data) simp_all
  have g: "get (Some data) k = Inr (field (Some data) k)" for k
    by (simp add: data)
  from c5 have so: "is_object (field (Some data) ''settings'')"
    and co: "is_object (field (field (Some data) ''settings'') ''columnById'')"
    and vm: "codec_viewMode (field (field (Some data) ''settings'') ''viewMode'')"
    by (simp_all add: check5_def)
  from co obtain c where c: "field (field (Some data) ''settings'') ''columnById'' = Some c"
    using is_object_Some by blast
  from vm obtain m where m: "field (field (Some data) ''settings'') ''viewMode'' = Some (JStr m)"
    by (auto simp: codec_viewMode_def)
  have gs: "get (field (Some data) ''settings'') k = Inr (field (field (Some data) ''settings'') k)" for k
    using so by (rule is_object_get)
  have ids: "map_js (\<lambda>t. get (Some t) ''id'') ts = Inr (task_ids ts)"
    using ts by (simp add: map_js_ids)
  have fl: "filter_js (\<lambda>doc. bind_js (get (Some doc) ''taskId'') (\<lambda>taskId. Inr (Set_has (task_ids ts) taskId))) ds
       = Inr (filter (refers_to ts) ds)"
  proof -
    have "refers_to ts = (\<lambda>doc. field (Some doc) ''taskId'' \<in> set (task_ids ts))"
      by (rule ext) (simp add: refers_to_def)
    then show ?thesis
      using ds by (simp add: filter_js_documents)
  qed
  have "importAllData data db =
               bind_js (Table_bulkAdd ''id'' ts []) (\<lambda>new_tasks.
               bind_js (Table_bulkAdd ''id'' (filter (refers_to ts) ds) [])
                 (\<lambda>new_documents.
                   Inr \<lparr>db_tasks = new_tasks,
                        db_settings = [JObj [(''key'', JStr ''columnById''), (''value'', c)],
                                       JObj [(''key'', JStr ''viewMode''), (''value'', JStr m)]],
                        db_documents = new_documents\<rparr>))"
    unfolding importAllData_def Table_bulkAdd_if g gs bind_js_Inr ts c m array_of_def
    by (simp add: ds ids fl settings_puts Table_clear_def bind_js_Inr)
  then show ?thesis
    using c m ts ds by (simp add: envelope_tasks_def envelope_documents_def)
qed


lemma key_of_id_field:
  "is_string (field (Some x) ''id'') \<Longrightarrow>
     field (Some x) ''id'' = map_option JStr (key_of ''id'' x) \<and> key_of ''id'' x \<noteq> None"
  by (auto simp: key_of_def dest!: is_string_cases)

lemma distinct_keys_ids:
  assumes "list_all (\<lambda>x. is_string (field (Some x) ''id'')) xs"
  shows "distinct (map (key_of ''id'') xs) = distinct (map (\<lambda>x. field (Some x) ''id'') xs)"
proof -
  have "(key_of ''id'' x = key_of ''id'' y) = (field (Some x) ''id'' = field (Some y) ''id'')"
    if "x \<in> set xs" "y \<in> set xs" for x y
  proof -
    from that assms have "is_string (field (Some x) ''id'')" "is_string (field (Some y) ''id'')"
      by (simp_all add: list_all_iff)
    then show ?thesis
      using key_of_id_field [of x] key_of_id_field [of y] by (cases "key_of ''id'' x"; cases "key_of ''id'' y") auto
  qed
  then have "inj_on (key_of ''id'') (set xs) = inj_on (\<lambda>x. field (Some x) ''id'') (set xs)"
    by (simp add: inj_on_def)
  then show ?thesis
    by (simp add: distinct_map)
qed

lemma keys_present:
  "list_all (\<lambda>x. is_string (field (Some x) ''id'')) xs \<Longrightarrow> None \<notin> set (map (key_of ''id'') xs)"
  using key_of_id_field by (fastforce simp: list_all_iff)

lemma getSetting_two:
  "getSetting ''columnById''
     \<lparr>db_tasks = ts,
      db_settings = [JObj [(''key'', JStr ''columnById''), (''value'', c)],
                     JObj [(''key'', JStr ''viewMode''), (''value'', v)]],
      db_documents = ds\<rparr> = Some c"
  "getSetting ''viewMode''
     \<lparr>db_tasks = ts,
      db_settings = [JObj [(''key'', JStr ''columnById''), (''value'', c)],
                     JObj [(''key'', JStr ''viewMode''), (''value'', v)]],
      db_documents = ds\<rparr> = Some v"
  by (simp_all add: getSetting_def Table_get_def key_of_def)

text \<open>
  Claim C1.  Take an envelope that \<^verbatim>\<open>validateImportData\<close> accepts.  \<^verbatim>\<open>importAllData\<close>
  succeeds exactly when the task ids are distinct and the ids of the documents that
  refer to a task of the envelope are distinct (the store refuses a second record under
  one key, and then nothing is imported).  After a successful import the documents of
  the store are exactly the documents of the envelope whose \<^verbatim>\<open>taskId\<close> is the id of a task
  of the envelope, every other document is dropped, the tasks of the store are the tasks
  of the envelope, the two settings are the ones of the envelope, and so every stored
  document refers to a stored task.
\<close>

theorem import_keeps_referenced_documents:
  assumes "validateImportData (Some data) = Inr r" and "valid r"
  shows "((\<exists>db'. importAllData data db = Inr db') =
            (distinct (task_ids (envelope_tasks data))
             \<and> distinct (map (\<lambda>doc. field (Some doc) ''id'')
                           (filter (refers_to (envelope_tasks data)) (envelope_documents data)))))
       \<and> (\<forall>db'. importAllData data db = Inr db' \<longrightarrow>
            mset (db_documents db')
              = mset (filter (refers_to (envelope_tasks data)) (envelope_documents data))
          \<and> mset (db_tasks db') = mset (envelope_tasks data)
          \<and> getSetting ''columnById'' db' = field (field (Some data) ''settings'') ''columnById''
          \<and> getSetting ''viewMode'' db' = field (field (Some data) ''settings'') ''viewMode''
          \<and> (\<forall>doc \<in> set (db_documents db'). \<exists>t \<in> set (db_tasks db').
                 field (Some doc) ''taskId'' = field (Some t) ''id''))"
proof -
  define ts where "ts = envelope_tasks data"
  define ds where "ds = filter (refers_to ts) (envelope_documents data)"
  from assms have checks: "check3 (Some data)" "check4 (Some data)" "check5 (Some data)"
    using valid_checks by blast+
  from checks(1) have ts_shape: "list_all task_shape ts"
    by (simp add: check3_def ts_def envelope_tasks_def)
  from checks(2) have "list_all document_shape (envelope_documents data)"
    by (simp add: check4_def envelope_documents_def)
  then have ds_shape: "list_all document_shape ds"
    by (simp add: ds_def list_all_iff)
  have ts_ids: "list_all (\<lambda>x. is_string (field (Some x) ''id'')) ts"
    using ts_shape by (simp add: list_all_iff task_shape_def)
  have ds_ids: "list_all (\<lambda>x. is_string (field (Some x) ''id'')) ds"
    using ds_shape by (simp add: list_all_iff document_shape_def)
  obtain c m where c: "field (field (Some data) ''settings'') ''columnById'' = Some c"
    and m: "field (field (Some data) ''settings'') ''viewMode'' = Some (JStr m)"
    and imp: "importAllData data db =
               bind_js (Table_bulkAdd ''id'' ts []) (\<lambda>new_tasks.
               bind_js (Table_bulkAdd ''id'' ds [])
                 (\<lambda>new_documents.
                   Inr \<lparr>db_tasks = new_tasks,
                        db_settings = [JObj [(''key'', JStr ''columnById''), (''value'', c)],
                                       JObj [(''key'', JStr ''viewMode''), (''value'', JStr m)]],
                        db_documents = new_documents\<rparr>))"
    using importAllData_checked [OF checks, of db] unfolding ts_def ds_def by blast
  have ok_ts: "(\<exists>t'. Table_bulkAdd ''id'' ts [] = Inr t') = distinct (task_ids ts)"
    using Table_bulkAdd_succeeds [of "''id''" ts "[]"] keys_present [OF ts_ids]
      distinct_keys_ids [OF ts_ids]
    by (simp add: task_ids_def)
  have ok_ds: "(\<exists>t'. Table_bulkAdd ''id'' ds [] = Inr t')
                 = distinct (map (\<lambda>doc. field (Some doc) ''id'') ds)"
    using Table_bulkAdd_succeeds [of "''id''" ds "[]"] keys_present [OF ds_ids]
      distinct_keys_ids [OF ds_ids]
    by simp
  have succeeds: "(\<exists>db'. importAllData data db = Inr db')
      = (distinct (task_ids ts) \<and> distinct (map (\<lambda>doc. field (Some doc) ''id'') ds))"
    unfolding imp ok_ts [symmetric] ok_ds [symmetric]
    by (auto simp: bind_js_def split: sum.splits)
  have result: "mset (db_documents db') = mset ds
          \<and> mset (db_tasks db') = mset ts
          \<and> getSetting ''columnById'' db' = Some c
          \<and> getSetting ''viewMode'' db' = Some (JStr m)
          \<and> (\<forall>doc \<in> set (db_documents db'). \<exists>t \<in> set (db_tasks db').
                 field (Some doc) ''taskId'' = field (Some t) ''id'')"
    if "importAllData data db = Inr db'" for db'
  proof -
    from that obtain nt nd where nt: "Table_bulkAdd ''id'' ts [] = Inr nt"
      and nd: "Table_bulkAdd ''id'' ds [] = Inr nd"
      and db': "db' = \<lparr>db_tasks = nt,
                        db_settings = [JObj [(''key'', JStr ''columnById''), (''value'', c)],
                                       JObj [(''key'', JStr ''viewMode''), (''value'', JStr m)]],
                        db_documents = nd\<rparr>"
      unfolding imp by (auto simp: bind_js_def split: sum.splits)
    have mt: "mset nt = mset ts" using Table_bulkAdd_mset [OF nt] by simp
    have md: "mset nd = mset ds" using Table_bulkAdd_mset [OF nd] by simp
    have st: "set nt = set ts" using mt by (rule mset_eq_setD)
    have sd: "set nd = set ds" using md by (rule mset_eq_setD)
    have "\<exists>t \<in> set ts. field (Some doc) ''taskId'' = field (Some t) ''id''" if "doc \<in> set ds" for doc
      using that by (auto simp: ds_def refers_to_def task_ids_def)
    then show ?thesis
      by (simp add: db' mt md st sd getSetting_two)
  qed
  show ?thesis
    using succeeds result unfolding ts_def ds_def c m by blast
qed

theorem import_keeps_referenced_documents_witness:
  "validateImportData (Some backup_with_orphan) = Inr \<lparr>valid = True, error = None\<rparr>
   \<and> importAllData backup_with_orphan empty_store = Inr store_ab
   \<and> mset (db_documents store_ab)
       = mset (filter (refers_to (envelope_tasks backup_with_orphan))
                 (envelope_documents backup_with_orphan))
   \<and> db_documents store_ab = [doc_of_a]
   \<and> envelope_documents backup_with_orphan = [doc_of_a, doc_of_nobody]"
proof -
  have v: "validateImportData (Some backup_with_orphan) = Inr \<lparr>valid = True, error = None\<rparr>"
    by (simp add: validate_defs example_defs)
  have i: "importAllData backup_with_orphan empty_store = Inr store_ab"
    by (simp add: import_defs example_defs)
  have d: "db_documents store_ab = [doc_of_a]"
    "envelope_documents backup_with_orphan = [doc_of_a, doc_of_nobody]"
    by (simp_all add: store_ab_def backup_with_orphan_def envelope_documents_def)
  from import_keeps_referenced_documents [OF v, of empty_store] i v d
  show ?thesis by simp
qed

section \<open>Round trip\<close>

lemma strictly_ordered_keys:
  "strictly_ordered kp xs = (\<exists>ks. map (key_of kp) xs = map Some ks \<and> sorted_wrt (<) ks)"
proof (induction kp xs rule: strictly_ordered.induct)
  case (1 kp)
  show ?case by simp
next
  case (2 kp x)
  show ?case
  proof (cases "key_of kp x")
    case None
    then show ?thesis by (auto simp: Cons_eq_map_conv)
  next
    case (Some k)
    then have "map (key_of kp) [x] = map Some [k] \<and> sorted_wrt (<) [k]" by simp
    then have "\<exists>ks. map (key_of kp) [x] = map Some ks \<and> sorted_wrt (<) ks" by blast
    then show ?thesis using Some by simp
  qed
next
  case (3 kp x y zs)
  show ?case
  proof (cases "key_of kp x")
    case None
    then show ?thesis by (auto simp: Cons_eq_map_conv)
  next
    case a: (Some a)
    show ?thesis
    proof (cases "key_of kp y")
      case None
      then show ?thesis using a by (auto simp: Cons_eq_map_conv)
    next
      case b: (Some b)
      have "(\<exists>ks. map (key_of kp) (x # y # zs) = map Some ks \<and> sorted_wrt (<) ks)
          = (a < b \<and> (\<exists>ks. map (key_of kp) (y # zs) = map Some ks \<and> sorted_wrt (<) ks))"
        (is "?L = ?R")
      proof
        assume ?L
        then obtain ks where ks: "map (key_of kp) (x # y # zs) = map Some ks" "sorted_wrt (<) ks"
          by blast
        then obtain ks' where ks': "ks = a # b # ks'" "map (key_of kp) zs = map Some ks'"
          using a b by (auto simp: map_eq_Cons_conv Cons_eq_map_conv)
        with ks have "a < b" and "sorted_wrt (<) (b # ks')" by simp_all
        moreover have "map (key_of kp) (y # zs) = map Some (b # ks')" using b ks' by simp
        ultimately show ?R by blast
      next
        assume r: ?R
        then obtain ks where ks: "map (key_of kp) (y # zs) = map Some ks" "sorted_wrt (<) ks"
          by blast
        then obtain ks' where ks': "ks = b # ks'"
          using b by (auto simp: Cons_eq_map_conv)
        have "sorted_wrt (<) (a # ks)"
          using r ks ks' by (auto intro: less_trans)
        moreover have "map (key_of kp) (x # y # zs) = map Some (a # ks)"
          using a ks by simp
        ultimately show ?L by blast
      qed
      with 3 [OF refl a b] a b show ?thesis
        by simp
    qed
  qed
qed

lemma place_at_end:
  "map (key_of kp) t = map Some kt \<Longrightarrow> \<forall>a \<in> set kt. a < k \<Longrightarrow> place kp k r t = t @ [r]"
proof (induction t arbitrary: kt)
  case Nil
  show ?case by simp
next
  case (Cons x t)
  then obtain a kt' where kt: "kt = a # kt'" "key_of kp x = Some a" "map (key_of kp) t = map Some kt'"
    by (auto simp: Cons_eq_map_conv)
  with Cons.prems have "a < k" "\<forall>a \<in> set kt'. a < k" by simp_all
  with Cons.IH [OF kt(3)] kt show ?case by auto
qed

lemma Table_bulkAdd_ordered:
  "map (key_of kp) rs = map Some ks \<Longrightarrow> sorted_wrt (<) ks \<Longrightarrow>
   map (key_of kp) t = map Some kt \<Longrightarrow> \<forall>a \<in> set kt. \<forall>b \<in> set ks. a < b \<Longrightarrow>
   Table_bulkAdd kp rs t = Inr (t @ rs)"
proof (induction rs arbitrary: ks t kt)
  case Nil
  show ?case by simp
next
  case (Cons r rs)
  from Cons.prems(1) obtain k ks' where ks: "ks = k # ks'" "key_of kp r = Some k"
    "map (key_of kp) rs = map Some ks'"
    by (auto simp: Cons_eq_map_conv)
  from Cons.prems(4) ks have below: "\<forall>a \<in> set kt. a < k" by simp
  then have "k \<notin> set kt" by auto
  then have fresh: "Some k \<notin> set (map (key_of kp) t)"
    using Cons.prems(3) by auto
  have pl: "place kp k r t = t @ [r]"
    using Cons.prems(3) below by (rule place_at_end)
  have add: "Table_add kp r t = Inr (t @ [r])"
    using ks fresh pl Table_get_None [of kp k t] by (simp add: Table_add_def)
  have keys': "map (key_of kp) (t @ [r]) = map Some (kt @ [k])"
    using Cons.prems(3) ks by simp
  have "\<forall>a \<in> set (kt @ [k]). \<forall>b \<in> set ks'. a < b"
    using Cons.prems(2,4) ks by auto
  moreover have "sorted_wrt (<) ks'" using Cons.prems(2) ks by simp
  ultimately have "Table_bulkAdd kp rs (t @ [r]) = Inr ((t @ [r]) @ rs)"
    using Cons.IH [OF ks(3) _ keys'] by blast
  then show ?case
    by (simp add: add bind_js_Inr)
qed

lemma Table_bulkAdd_strictly_ordered:
  "strictly_ordered kp rs \<Longrightarrow> Table_bulkAdd kp rs [] = Inr rs"
  using Table_bulkAdd_ordered [of kp rs _ "[]" "[]"]
  by (auto simp: strictly_ordered_keys)

text \<open>The operations on a table keep its records in the order of their keys.\<close>

lemma set_put_key: "set (put_key k ks) = insert k (set ks)"
  by (induction ks) auto

lemma sorted_put_key: "sorted_wrt (<) ks \<Longrightarrow> sorted_wrt (<) (put_key k ks)"
  by (induction ks) (auto simp: set_put_key)

lemma keys_place_ordered:
  "key_of kp r = Some k \<Longrightarrow> map (key_of kp) t = map Some ks \<Longrightarrow>
     map (key_of kp) (place kp k r t) = map Some (put_key k ks)"
proof (induction t arbitrary: ks)
  case Nil
  then show ?case by simp
next
  case (Cons x t)
  then obtain a ks' where ks: "ks = a # ks'" "key_of kp x = Some a" "map (key_of kp) t = map Some ks'"
    by (auto simp: Cons_eq_map_conv)
  with Cons show ?case by auto
qed

lemma place_strictly_ordered:
  assumes "strictly_ordered kp t" and "key_of kp r = Some k"
  shows "strictly_ordered kp (place kp k r t)"
proof -
  from assms(1) obtain ks where ks: "map (key_of kp) t = map Some ks" "sorted_wrt (<) ks"
    unfolding strictly_ordered_keys by blast
  have "map (key_of kp) (place kp k r t) = map Some (put_key k ks)"
    using assms(2) ks(1) by (rule keys_place_ordered)
  moreover have "sorted_wrt (<) (put_key k ks)"
    using ks(2) by (rule sorted_put_key)
  ultimately show ?thesis
    unfolding strictly_ordered_keys by blast
qed

lemma filter_strictly_ordered:
  assumes "strictly_ordered kp t"
  shows "strictly_ordered kp (filter P t)"
proof -
  from assms obtain ks where ks: "map (key_of kp) t = map Some ks" "sorted_wrt (<) ks"
    unfolding strictly_ordered_keys by blast
  have "\<exists>ks'. map (key_of kp) (filter P t) = map Some ks' \<and> sorted_wrt (<) ks'"
    using ks
  proof (induction t arbitrary: ks)
    case Nil
    then show ?case by simp
  next
    case (Cons x t)
    then obtain a ks' where a: "ks = a # ks'" "key_of kp x = Some a" "map (key_of kp) t = map Some ks'"
      by (auto simp: Cons_eq_map_conv)
    with Cons.prems have s: "sorted_wrt (<) ks'" "\<forall>b \<in> set ks'. a < b" by simp_all
    from Cons.IH [OF a(3) s(1)] obtain ks'' where
      k: "map (key_of kp) (filter P t) = map Some ks''" "sorted_wrt (<) ks''"
      by blast
    have sub: "set ks'' \<subseteq> set ks'"
    proof -
      have "Some ` set ks'' = set (map (key_of kp) (filter P t))" using k(1) by simp
      also have "\<dots> \<subseteq> set (map (key_of kp) t)" by auto
      also have "\<dots> = Some ` set ks'" using a(3) by simp
      finally show ?thesis by auto
    qed
    show ?case
    proof (cases "P x")
      case True
      have "map (key_of kp) (filter P (x # t)) = map Some (a # ks'')"
        using True a k by simp
      moreover have "sorted_wrt (<) (a # ks'')"
        using k(2) s(2) sub by auto
      ultimately show ?thesis by blast
    next
      case False
      then show ?thesis using k by auto
    qed
  qed
  then show ?thesis
    unfolding strictly_ordered_keys .
qed

lemma table_operations_keep_order:
  assumes "strictly_ordered kp t"
  shows "Table_put kp r t = Inr t' \<Longrightarrow> strictly_ordered kp t'"
    and "Table_add kp r t = Inr t' \<Longrightarrow> strictly_ordered kp t'"
    and "strictly_ordered kp (Table_delete kp k t)"
    and "strictly_ordered kp (Table_where_equals_delete i v t)"
    and "strictly_ordered kp (Table_clear t)"
  using assms
  by (auto simp: Table_put_def Table_add_def Table_delete_def Table_where_equals_delete_def
        Table_clear_def place_strictly_ordered filter_strictly_ordered
        split: option.splits if_splits)

lemma valid_result: "valid r \<Longrightarrow> error r = None \<Longrightarrow> r = \<lparr>valid = True, error = None\<rparr>"
  by (cases r) simp

lemma no_orphans_all_refer:
  assumes "list_all document_shape ds"
    and "filter (\<lambda>doc. \<not> Set_has (map (\<lambda>t. field (Some t) ''id'') ts)
                                (field (Some doc) ''taskId'')) ds = []"
  shows "filter (refers_to ts) ds = ds"
proof -
  have "refers_to ts doc" if "doc \<in> set ds" for doc
  proof -
    from that assms(1) obtain s where s: "field (Some doc) ''taskId'' = Some (JStr s)"
      by (auto simp: list_all_iff document_shape_def dest: is_string_cases)
    from assms(2) that
    have "Set_has (map (\<lambda>t. field (Some t) ''id'') ts) (field (Some doc) ''taskId'')"
      by (auto simp: filter_empty_conv)
    with s show ?thesis
      by (simp add: refers_to_def task_ids_def)
  qed
  then show ?thesis by simp
qed

lemma nullish_or_object: "is_object (Some c) \<Longrightarrow> nullish_or (Some c) d = c"
  by (cases c) simp_all

lemma export_checks:
  assumes "well_typed_store db"
  shows "check1 (Some (exportData now db))" "check2 (Some (exportData now db))"
    "check3 (Some (exportData now db))" "check4 (Some (exportData now db))"
    "check5 (Some (exportData now db))"
  using assms
  by (simp_all add: well_typed_store_def exportData_def check1_def check2_def check3_def
        check4_def check5_def getAllTasks_def getAllDocuments_def Table_toArray_def)

lemma export_fields:
  "envelope_tasks (exportData now db) = db_tasks db"
  "envelope_documents (exportData now db) = db_documents db"
  "field (field (Some (exportData now db)) ''settings'') ''columnById''
     = Some (nullish_or (getSetting ''columnById'' db) (JObj []))"
  "field (field (Some (exportData now db)) ''settings'') ''viewMode''
     = Some (nullish_or (getSetting ''viewMode'' db) (JStr ''list''))"
  by (simp_all add: exportData_def envelope_tasks_def envelope_documents_def getAllTasks_def
        getAllDocuments_def Table_toArray_def)

text \<open>
  The round trip does not hold for every store: the export of a store with an orphaned
  document is accepted, and the import drops that document.
\<close>

theorem roundtrip_counterexample:
  "validateImportData (Some (exportData ''2026-01-01'' store_with_orphan))
     = Inr \<lparr>valid = True, error = None\<rparr>
   \<and> importAllData (exportData ''2026-01-01'' store_with_orphan) store_with_orphan = Inr store_ab
   \<and> getAllDocuments store_with_orphan = [doc_of_a, doc_of_nobody]
   \<and> getAllDocuments store_ab = [doc_of_a]
   \<and> getAllDocuments store_ab \<noteq> getAllDocuments store_with_orphan"
proof -
  have e: "exportData ''2026-01-01'' store_with_orphan =
     JObj [(''version'', JNum 1), (''exportedAt'', JStr ''2026-01-01''),
           (''tasks'', JArr [task_a, task_b]),
           (''documents'', JArr [doc_of_a, doc_of_nobody]),
           (''settings'', JObj [(''columnById'', JObj [(''a'', JStr ''column-2'')]),
                                (''viewMode'', JStr ''columns'')])]"
    by (simp add: codec_defs store_with_orphan_def settings_ab_def)
  have v: "validateImportData (Some (exportData ''2026-01-01'' store_with_orphan))
     = Inr \<lparr>valid = True, error = None\<rparr>"
    unfolding e by (simp add: validate_defs example_defs)
  have i: "importAllData (exportData ''2026-01-01'' store_with_orphan) store_with_orphan = Inr store_ab"
    unfolding e by (simp add: import_defs example_defs)
  show ?thesis
    using v i by (simp add: getAllDocuments_def Table_toArray_def example_defs)
qed

text \<open>
  A stored view mode that is not one of the three modes of the codec is exported as it
  is, and the validator then refuses the export.
\<close>

lemma calendar_export_rejected:
  "validateImportData (Some (exportData ''2026-01-01'' store_calendar))
     = Inr \<lparr>valid = False, error = Some Invalid_viewMode\<rparr>"
  by (simp add: codec_defs validate_defs invalid_def store_calendar_def task_a_def doc_of_a_def)

text \<open>
  Claim C2, as amended.  Take a store whose records have the declared shapes and in which
  no document is orphaned, and let the JSON library read the exported text back to the
  exported tree.  Then \<^verbatim>\<open>parseImportFile\<close> accepts the text that \<^verbatim>\<open>exportAllData\<close> wrote and
  returns the envelope without an error, and \<^verbatim>\<open>importAllData\<close> of that envelope, into any
  store, succeeds and leaves the same tasks, the same documents, and the same settings as
  \<^verbatim>\<open>loadPersistedData\<close> reads them (\<^verbatim>\<open>columnById\<close> and \<^verbatim>\<open>viewMode\<close> with their defaults).
  The timestamp \<^verbatim>\<open>exportedAt\<close> is not stored.
\<close>

theorem export_import_roundtrip:
  assumes typed: "well_typed_store db"
    and no_orphans: "orphaned db = []"
    and library: "parse (stringify (exportData now db)) = Some (exportData now db)"
  shows "parseImportFile parse (exportAllData stringify now db)
           = Inr \<lparr>file_data = Some (exportData now db), file_error = None\<rparr>
       \<and> (\<exists>db'. importAllData (exportData now db) db0 = Inr db'
              \<and> getAllTasks db' = getAllTasks db
              \<and> getAllDocuments db' = getAllDocuments db
              \<and> loadPersistedData db' = loadPersistedData db)"
proof -
  let ?e = "exportData now db"
  note checks = export_checks [OF typed, of now]
  obtain r where r: "validateImportData (Some ?e) = Inr r" "valid r" "error r = None"
    using validate_checks [of "Some ?e"] checks by auto
  then have v: "validateImportData (Some ?e) = Inr \<lparr>valid = True, error = None\<rparr>"
    using valid_result by simp
  have parse: "parseImportFile parse (exportAllData stringify now db)
           = Inr \<lparr>file_data = Some ?e, file_error = None\<rparr>"
    by (simp add: parseImportFile_def exportAllData_def library v bind_js_Inr)
  from typed have ord: "strictly_ordered ''id'' (db_tasks db)" "strictly_ordered ''id'' (db_documents db)"
    and shape: "list_all document_shape (db_documents db)"
    and col: "is_object (Some (nullish_or (getSetting ''columnById'' db) (JObj [])))"
    by (simp_all add: well_typed_store_def)
  have docs: "filter (refers_to (db_tasks db)) (db_documents db) = db_documents db"
    using shape no_orphans unfolding orphaned_def by (rule no_orphans_all_refer)
  obtain c m where c: "Some (nullish_or (getSetting ''columnById'' db) (JObj [])) = Some c"
    and m: "Some (nullish_or (getSetting ''viewMode'' db) (JStr ''list'')) = Some (JStr m)"
    and imp: "importAllData ?e db0 =
               bind_js (Table_bulkAdd ''id'' (db_tasks db) []) (\<lambda>new_tasks.
               bind_js (Table_bulkAdd ''id'' (db_documents db) [])
                 (\<lambda>new_documents.
                   Inr \<lparr>db_tasks = new_tasks,
                        db_settings = [JObj [(''key'', JStr ''columnById''), (''value'', c)],
                                       JObj [(''key'', JStr ''viewMode''), (''value'', JStr m)]],
                        db_documents = new_documents\<rparr>))"
    using importAllData_checked [OF checks(3,4,5), of db0] unfolding export_fields docs by blast
  let ?db' = "\<lparr>db_tasks = db_tasks db,
                db_settings = [JObj [(''key'', JStr ''columnById''), (''value'', c)],
                               JObj [(''key'', JStr ''viewMode''), (''value'', JStr m)]],
                db_documents = db_documents db\<rparr>"
  have i: "importAllData ?e db0 = Inr ?db'"
    unfolding imp by (simp add: Table_bulkAdd_strictly_ordered ord bind_js_Inr)
  have "is_object (Some c)" using col c by simp
  then have "nullish_or (Some c) (JObj []) = c" by (rule nullish_or_object)
  then have "loadPersistedData ?db' = loadPersistedData db"
    using c m by (simp add: loadPersistedData_def getSetting_two getAllTasks_def)
  then show ?thesis
    using parse i by (simp add: getAllTasks_def getAllDocuments_def)
qed

theorem export_import_roundtrip_witness:
  "well_typed_store store_ab \<and> orphaned store_ab = []
   \<and> parseImportFile (\<lambda>s. if s = ''backup'' then Some (exportData ''2026-01-01'' store_ab) else None)
        (exportAllData (\<lambda>v. ''backup'') ''2026-01-01'' store_ab)
       = Inr \<lparr>file_data = Some (exportData ''2026-01-01'' store_ab), file_error = None\<rparr>
   \<and> (\<exists>db'. importAllData (exportData ''2026-01-01'' store_ab) empty_store = Inr db'
          \<and> getAllTasks db' = getAllTasks store_ab
          \<and> getAllDocuments db' = getAllDocuments store_ab
          \<and> loadPersistedData db' = loadPersistedData store_ab)"
proof -
  let ?parse = "\<lambda>s. if s = ''backup'' then Some (exportData ''2026-01-01'' store_ab) else None"
  let ?stringify = "\<lambda>v::json. ''backup''"
  have t: "well_typed_store store_ab"
    by (simp add: well_typed_store_def example_defs key_of_def task_shape_def document_shape_def
          getSetting_def Table_get_def codec_viewMode_def)
  have o: "orphaned store_ab = []"
    by (simp add: orphaned_def example_defs)
  have l: "?parse (?stringify (exportData ''2026-01-01'' store_ab))
           = Some (exportData ''2026-01-01'' store_ab)"
    by simp
  from export_import_roundtrip [of store_ab ?parse ?stringify "''2026-01-01''" empty_store, OF t o l] t o
  show ?thesis by simp
qed
section \<open>What each operation does to the store\<close>

lemma issue_saveDocument_fields:
  "importInProgress (issue_saveDocument d w) = importInProgress w"
  "clock (issue_saveDocument d w) = clock w"
  "items (issue_saveDocument d w) = items w"
  "columnById (issue_saveDocument d w) = columnById w"
  "viewMode (issue_saveDocument d w) = viewMode w"
  "hasHydratedRef (issue_saveDocument d w) = hasHydratedRef w"
  "itemsTimeoutRef (issue_saveDocument d w) = itemsTimeoutRef w"
  "columnByIdTimeoutRef (issue_saveDocument d w) = columnByIdTimeoutRef w"
  "viewModeTimeoutRef (issue_saveDocument d w) = viewModeTimeoutRef w"
  "documents (issue_saveDocument d w) = documents w"
  "saveTimeoutRef (issue_saveDocument d w) = saveTimeoutRef w"
  "pendingSavesRef (issue_saveDocument d w) = pendingSavesRef w"
  "editingItemId (issue_saveDocument d w) = editingItemId w"
  "inFlightSaves (issue_saveDocument d w) = inFlightSaves w"
  "writes (issue_saveDocument d w) = writes w @ [SaveDocument d]"
  by (simp_all add: issue_saveDocument_def)

lemma fold_scheduleSave_fields:
  "store (fold scheduleSave ds w) = store w"
  "writes (fold scheduleSave ds w) = writes w"
  "documents (fold scheduleSave ds w) = documents w"
  "importInProgress (fold scheduleSave ds w) = importInProgress w"
  "clock (fold scheduleSave ds w) = clock w"
  "inFlightSaves (fold scheduleSave ds w) = inFlightSaves w"
  by (induction ds arbitrary: w) (simp_all add: scheduleSave_def)

lemma setItems_frame:
  "store (setItems a w) = store w" "writes (setItems a w) = writes w"
  "columnById (setItems a w) = columnById w" "clock (setItems a w) = clock w"
  "hasHydratedRef (setItems a w) = hasHydratedRef w"
  "importInProgress (setItems a w) = importInProgress w"
  "editingItemId (setItems a w) = editingItemId w"
  "documents (setItems a w) = documents w" "pendingSavesRef (setItems a w) = pendingSavesRef w"
  "saveTimeoutRef (setItems a w) = saveTimeoutRef w"
  "inFlightSaves (setItems a w) = inFlightSaves w"
  "columnByIdTimeoutRef (setItems a w) = columnByIdTimeoutRef w"
  "viewModeTimeoutRef (setItems a w) = viewModeTimeoutRef w"
  "viewMode (setItems a w) = viewMode w"
  by (simp_all add: setItems_def Let_def split: next_state.splits)

lemma setItems_new:
  "items (setItems (New_reference v) w) = v"
  "itemsTimeoutRef (setItems (New_reference v) w)
     = (if hasHydratedRef w then Some (clock w + TASK_DEBOUNCE_MS, v) else None)"
  by (simp_all add: setItems_def Let_def)


lemmas setItems_fields = setItems_frame setItems_new

lemma setColumnById_frame:
  "store (setColumnById a w) = store w" "writes (setColumnById a w) = writes w"
  "items (setColumnById a w) = items w"
  "clock (setColumnById a w) = clock w"
  "hasHydratedRef (setColumnById a w) = hasHydratedRef w"
  "importInProgress (setColumnById a w) = importInProgress w"
  "editingItemId (setColumnById a w) = editingItemId w"
  "documents (setColumnById a w) = documents w"
  "pendingSavesRef (setColumnById a w) = pendingSavesRef w"
  "saveTimeoutRef (setColumnById a w) = saveTimeoutRef w"
  "inFlightSaves (setColumnById a w) = inFlightSaves w"
  "itemsTimeoutRef (setColumnById a w) = itemsTimeoutRef w"
  "viewModeTimeoutRef (setColumnById a w) = viewModeTimeoutRef w"
  "viewMode (setColumnById a w) = viewMode w"
  by (simp_all add: setColumnById_def Let_def split: next_state.splits)

lemma setColumnById_new:
  "columnById (setColumnById (New_reference v) w) = v"
  "columnByIdTimeoutRef (setColumnById (New_reference v) w)
     = (if hasHydratedRef w then Some (clock w + TASK_DEBOUNCE_MS, v) else None)"
  by (simp_all add: setColumnById_def Let_def)


lemmas setColumnById_fields = setColumnById_frame setColumnById_new

lemma setViewMode_fields:
  "store (setViewMode v w) = store w" "writes (setViewMode v w) = writes w"
  "items (setViewMode v w) = items w" "columnById (setViewMode v w) = columnById w"
  "viewMode (setViewMode v w) = v" "clock (setViewMode v w) = clock w"
  "hasHydratedRef (setViewMode v w) = hasHydratedRef w"
  "importInProgress (setViewMode v w) = importInProgress w"
  "editingItemId (setViewMode v w) = editingItemId w"
  "documents (setViewMode v w) = documents w"
  "pendingSavesRef (setViewMode v w) = pendingSavesRef w"
  "saveTimeoutRef (setViewMode v w) = saveTimeoutRef w"
  "inFlightSaves (setViewMode v w) = inFlightSaves w"
  "itemsTimeoutRef (setViewMode v w) = itemsTimeoutRef w"
  "columnByIdTimeoutRef (setViewMode v w) = columnByIdTimeoutRef w"
  "viewModeTimeoutRef (setViewMode v w)
     = (if v = viewMode w then viewModeTimeoutRef w
        else if hasHydratedRef w then Some (clock w + TASK_DEBOUNCE_MS, v) else None)"
  by (simp_all add: setViewMode_def Let_def)


lemma handleDrop_fields:
  "store (handleDrop i c w) = store w" "writes (handleDrop i c w) = writes w"
  "items (handleDrop i c w) = items w"
  "documents (handleDrop i c w) = documents w"
  "pendingSavesRef (handleDrop i c w) = pendingSavesRef w"
  "saveTimeoutRef (handleDrop i c w) = saveTimeoutRef w"
  "inFlightSaves (handleDrop i c w) = inFlightSaves w"
  "importInProgress (handleDrop i c w) = importInProgress w"
  by (simp_all add: handleDrop_def setColumnById_frame)

lemma deleteDocument_fields:
  "store (deleteDocument i w) = deleteDocumentFromDb i (store w)"
  "writes (deleteDocument i w) = writes w @ [DeleteDocument i]"
  "documents (deleteDocument i w) = filter (\<lambda>doc. doc_id doc \<noteq> i) (documents w)"
  "pendingSavesRef (deleteDocument i w) = AList.delete i (pendingSavesRef w)"
  "saveTimeoutRef (deleteDocument i w) = saveTimeoutRef w"
  "importInProgress (deleteDocument i w) = importInProgress w"
  "inFlightSaves (deleteDocument i w) = inFlightSaves w"
  by (simp_all add: deleteDocument_def)

lemma deleteDocumentsByTaskId_fields:
  "store (deleteDocumentsByTaskId t w) = deleteDocumentsByTaskIdFromDb t (store w)"
  "writes (deleteDocumentsByTaskId t w) = writes w @ [DeleteDocumentsByTaskId t]"
  "documents (deleteDocumentsByTaskId t w) = filter (\<lambda>doc. taskId doc \<noteq> t) (documents w)"
  "pendingSavesRef (deleteDocumentsByTaskId t w)
     = fold (\<lambda>doc. AList.delete (doc_id doc)) (filter (\<lambda>doc. taskId doc = t) (documents w))
         (pendingSavesRef w)"
  "saveTimeoutRef (deleteDocumentsByTaskId t w) = saveTimeoutRef w"
  "importInProgress (deleteDocumentsByTaskId t w) = importInProgress w"
  "items (deleteDocumentsByTaskId t w) = items w"
  "columnById (deleteDocumentsByTaskId t w) = columnById w"
  "clock (deleteDocumentsByTaskId t w) = clock w"
  "hasHydratedRef (deleteDocumentsByTaskId t w) = hasHydratedRef w"
  "inFlightSaves (deleteDocumentsByTaskId t w) = inFlightSaves w"
  by (simp_all add: deleteDocumentsByTaskId_def Let_def)


lemma addDocument_fields:
  "store (addDocument n t ttl w) = store w"
  "writes (addDocument n t ttl w) = writes w"
  "saveTimeoutRef (addDocument n t ttl w) = Some (clock w + DOCUMENT_DEBOUNCE_MS)"
  "inFlightSaves (addDocument n t ttl w) = inFlightSaves w"
  "documents (addDocument n t ttl w)
     = documents w @ [\<lparr>doc_id = n, taskId = t, title = (if ttl = [] then ''Untitled'' else ttl),
                        content = JObj [(''type'', JStr ''doc''),
                                        (''content'', JArr [JObj [(''type'', JStr ''paragraph'')]])],
                        createdAt = clock w, updatedAt = clock w\<rparr>]"
  by (simp_all add: addDocument_def scheduleSave_def Let_def)

lemma updateDocument_fields:
  "store (updateDocument i nt nc w) = store w"
  "writes (updateDocument i nt nc w) = writes w"
  "inFlightSaves (updateDocument i nt nc w) = inFlightSaves w"
  "documents (updateDocument i nt nc w)
     = map (\<lambda>doc. if doc_id doc \<noteq> i then doc else updated_document nt nc (clock w) doc)
         (documents w)"
  by (simp_all add: updateDocument_def fold_scheduleSave_fields Let_def)


section \<open>Timers\<close>

lemma issue_saveTasks_fields:
  "importInProgress (issue_saveTasks v w) = importInProgress w"
  "clock (issue_saveTasks v w) = clock w"
  "items (issue_saveTasks v w) = items w"
  "columnById (issue_saveTasks v w) = columnById w"
  "viewMode (issue_saveTasks v w) = viewMode w"
  "hasHydratedRef (issue_saveTasks v w) = hasHydratedRef w"
  "itemsTimeoutRef (issue_saveTasks v w) = itemsTimeoutRef w"
  "columnByIdTimeoutRef (issue_saveTasks v w) = columnByIdTimeoutRef w"
  "viewModeTimeoutRef (issue_saveTasks v w) = viewModeTimeoutRef w"
  "documents (issue_saveTasks v w) = documents w"
  "saveTimeoutRef (issue_saveTasks v w) = saveTimeoutRef w"
  "pendingSavesRef (issue_saveTasks v w) = pendingSavesRef w"
  "editingItemId (issue_saveTasks v w) = editingItemId w"
  "inFlightSaves (issue_saveTasks v w) = inFlightSaves w"
  "writes (issue_saveTasks v w) = writes w @ [SaveTasks v]"
  by (simp_all add: issue_saveTasks_def)

lemma issue_setSetting_fields:
  "importInProgress (issue_setSetting k v w) = importInProgress w"
  "clock (issue_setSetting k v w) = clock w"
  "items (issue_setSetting k v w) = items w"
  "columnById (issue_setSetting k v w) = columnById w"
  "viewMode (issue_setSetting k v w) = viewMode w"
  "hasHydratedRef (issue_setSetting k v w) = hasHydratedRef w"
  "itemsTimeoutRef (issue_setSetting k v w) = itemsTimeoutRef w"
  "columnByIdTimeoutRef (issue_setSetting k v w) = columnByIdTimeoutRef w"
  "viewModeTimeoutRef (issue_setSetting k v w) = viewModeTimeoutRef w"
  "documents (issue_setSetting k v w) = documents w"
  "saveTimeoutRef (issue_setSetting k v w) = saveTimeoutRef w"
  "pendingSavesRef (issue_setSetting k v w) = pendingSavesRef w"
  "editingItemId (issue_setSetting k v w) = editingItemId w"
  "inFlightSaves (issue_setSetting k v w) = inFlightSaves w"
  "writes (issue_setSetting k v w) = writes w @ [SetSetting k v]"
  by (simp_all add: issue_setSetting_def)

lemma fold_issue_saveDocument_fields:
  "importInProgress (fold issue_saveDocument ds w) = importInProgress w"
  "clock (fold issue_saveDocument ds w) = clock w"
  "items (fold issue_saveDocument ds w) = items w"
  "columnById (fold issue_saveDocument ds w) = columnById w"
  "viewMode (fold issue_saveDocument ds w) = viewMode w"
  "hasHydratedRef (fold issue_saveDocument ds w) = hasHydratedRef w"
  "itemsTimeoutRef (fold issue_saveDocument ds w) = itemsTimeoutRef w"
  "columnByIdTimeoutRef (fold issue_saveDocument ds w) = columnByIdTimeoutRef w"
  "viewModeTimeoutRef (fold issue_saveDocument ds w) = viewModeTimeoutRef w"
  "documents (fold issue_saveDocument ds w) = documents w"
  "saveTimeoutRef (fold issue_saveDocument ds w) = saveTimeoutRef w"
  "pendingSavesRef (fold issue_saveDocument ds w) = pendingSavesRef w"
  "editingItemId (fold issue_saveDocument ds w) = editingItemId w"
  "inFlightSaves (fold issue_saveDocument ds w) = inFlightSaves w"
  "writes (fold issue_saveDocument ds w) = writes w @ map SaveDocument ds"
  by (induction ds arbitrary: w) (simp_all add: issue_saveDocument_fields)

lemma start_saves_fields:
  "importInProgress (start_saves ds w) = importInProgress w"
  "clock (start_saves ds w) = clock w"
  "items (start_saves ds w) = items w"
  "columnById (start_saves ds w) = columnById w"
  "viewMode (start_saves ds w) = viewMode w"
  "hasHydratedRef (start_saves ds w) = hasHydratedRef w"
  "itemsTimeoutRef (start_saves ds w) = itemsTimeoutRef w"
  "columnByIdTimeoutRef (start_saves ds w) = columnByIdTimeoutRef w"
  "viewModeTimeoutRef (start_saves ds w) = viewModeTimeoutRef w"
  "documents (start_saves ds w) = documents w"
  "saveTimeoutRef (start_saves ds w) = saveTimeoutRef w"
  "pendingSavesRef (start_saves ds w) = pendingSavesRef w"
  "editingItemId (start_saves ds w) = editingItemId w"
  "writes (start_saves ds w) = writes w @ map SaveDocument (take 1 ds)"
  "inFlightSaves (start_saves ds w)
     = inFlightSaves w @ (if drop 1 ds = [] then [] else [drop 1 ds])"
  by (simp_all add: start_saves_def Let_def issue_saveDocument_fields split: list.splits)

lemma resume_fields:
  "importInProgress (resume i w) = importInProgress w"
  "clock (resume i w) = clock w"
  "items (resume i w) = items w"
  "columnById (resume i w) = columnById w"
  "viewMode (resume i w) = viewMode w"
  "hasHydratedRef (resume i w) = hasHydratedRef w"
  "itemsTimeoutRef (resume i w) = itemsTimeoutRef w"
  "columnByIdTimeoutRef (resume i w) = columnByIdTimeoutRef w"
  "viewModeTimeoutRef (resume i w) = viewModeTimeoutRef w"
  "documents (resume i w) = documents w"
  "saveTimeoutRef (resume i w) = saveTimeoutRef w"
  "pendingSavesRef (resume i w) = pendingSavesRef w"
  "editingItemId (resume i w) = editingItemId w"
  by (simp_all add: resume_def issue_saveDocument_fields split: list.splits)

lemma fire_itemsTimeout_fields:
  "importInProgress (fire_itemsTimeout w) = importInProgress w"
  "clock (fire_itemsTimeout w) = clock w"
  "items (fire_itemsTimeout w) = items w"
  "columnById (fire_itemsTimeout w) = columnById w"
  "viewMode (fire_itemsTimeout w) = viewMode w"
  "hasHydratedRef (fire_itemsTimeout w) = hasHydratedRef w"
  "columnByIdTimeoutRef (fire_itemsTimeout w) = columnByIdTimeoutRef w"
  "viewModeTimeoutRef (fire_itemsTimeout w) = viewModeTimeoutRef w"
  "documents (fire_itemsTimeout w) = documents w"
  "saveTimeoutRef (fire_itemsTimeout w) = saveTimeoutRef w"
  "pendingSavesRef (fire_itemsTimeout w) = pendingSavesRef w"
  "editingItemId (fire_itemsTimeout w) = editingItemId w"
  "inFlightSaves (fire_itemsTimeout w) = inFlightSaves w"
  "itemsTimeoutRef (fire_itemsTimeout w)
     = (case itemsTimeoutRef w of None \<Rightarrow> None
        | Some (deadline, v) \<Rightarrow> if deadline \<le> clock w then None else Some (deadline, v))"
  by (simp_all add: fire_itemsTimeout_def itemsTimeout_callback_def issue_saveTasks_fields
        split: option.splits prod.splits)

lemma fire_columnByIdTimeout_fields:
  "importInProgress (fire_columnByIdTimeout w) = importInProgress w"
  "clock (fire_columnByIdTimeout w) = clock w"
  "items (fire_columnByIdTimeout w) = items w"
  "columnById (fire_columnByIdTimeout w) = columnById w"
  "viewMode (fire_columnByIdTimeout w) = viewMode w"
  "hasHydratedRef (fire_columnByIdTimeout w) = hasHydratedRef w"
  "itemsTimeoutRef (fire_columnByIdTimeout w) = itemsTimeoutRef w"
  "viewModeTimeoutRef (fire_columnByIdTimeout w) = viewModeTimeoutRef w"
  "documents (fire_columnByIdTimeout w) = documents w"
  "saveTimeoutRef (fire_columnByIdTimeout w) = saveTimeoutRef w"
  "pendingSavesRef (fire_columnByIdTimeout w) = pendingSavesRef w"
  "editingItemId (fire_columnByIdTimeout w) = editingItemId w"
  "inFlightSaves (fire_columnByIdTimeout w) = inFlightSaves w"
  "columnByIdTimeoutRef (fire_columnByIdTimeout w)
     = (case columnByIdTimeoutRef w of None \<Rightarrow> None
        | Some (deadline, v) \<Rightarrow> if deadline \<le> clock w then None else Some (deadline, v))"
  by (simp_all add: fire_columnByIdTimeout_def columnByIdTimeout_callback_def
        issue_setSetting_fields split: option.splits prod.splits)

lemma fire_viewModeTimeout_fields:
  "importInProgress (fire_viewModeTimeout w) = importInProgress w"
  "clock (fire_viewModeTimeout w) = clock w"
  "items (fire_viewModeTimeout w) = items w"
  "columnById (fire_viewModeTimeout w) = columnById w"
  "viewMode (fire_viewModeTimeout w) = viewMode w"
  "hasHydratedRef (fire_viewModeTimeout w) = hasHydratedRef w"
  "itemsTimeoutRef (fire_viewModeTimeout w) = itemsTimeoutRef w"
  "columnByIdTimeoutRef (fire_viewModeTimeout w) = columnByIdTimeoutRef w"
  "documents (fire_viewModeTimeout w) = documents w"
  "saveTimeoutRef (fire_viewModeTimeout w) = saveTimeoutRef w"
  "pendingSavesRef (fire_viewModeTimeout w) = pendingSavesRef w"
  "editingItemId (fire_viewModeTimeout w) = editingItemId w"
  "inFlightSaves (fire_viewModeTimeout w) = inFlightSaves w"
  "viewModeTimeoutRef (fire_viewModeTimeout w)
     = (case viewModeTimeoutRef w of None \<Rightarrow> None
        | Some (deadline, v) \<Rightarrow> if deadline \<le> clock w then None else Some (deadline, v))"
  by (simp_all add: fire_viewModeTimeout_def viewModeTimeout_callback_def
        issue_setSetting_fields split: option.splits prod.splits)

lemma fire_saveTimeout_fields:
  "importInProgress (fire_saveTimeout w) = importInProgress w"
  "clock (fire_saveTimeout w) = clock w"
  "items (fire_saveTimeout w) = items w"
  "columnById (fire_saveTimeout w) = columnById w"
  "viewMode (fire_saveTimeout w) = viewMode w"
  "hasHydratedRef (fire_saveTimeout w) = hasHydratedRef w"
  "itemsTimeoutRef (fire_saveTimeout w) = itemsTimeoutRef w"
  "columnByIdTimeoutRef (fire_saveTimeout w) = columnByIdTimeoutRef w"
  "viewModeTimeoutRef (fire_saveTimeout w) = viewModeTimeoutRef w"
  "documents (fire_saveTimeout w) = documents w"
  "editingItemId (fire_saveTimeout w) = editingItemId w"
  "saveTimeoutRef (fire_saveTimeout w)
     = (case saveTimeoutRef w of None \<Rightarrow> None
        | Some deadline \<Rightarrow> if deadline \<le> clock w then None else Some deadline)"
  "pendingSavesRef (fire_saveTimeout w)
     = (case saveTimeoutRef w of None \<Rightarrow> pendingSavesRef w
        | Some deadline \<Rightarrow> if deadline \<le> clock w then [] else pendingSavesRef w)"
  by (simp_all add: fire_saveTimeout_def saveTimeout_callback_def Let_def
        start_saves_fields split: option.splits)

lemma fire_suspended:
  assumes "importInProgress w"
  shows "store (fire_itemsTimeout w) = store w" "writes (fire_itemsTimeout w) = writes w"
    "store (fire_columnByIdTimeout w) = store w" "writes (fire_columnByIdTimeout w) = writes w"
    "store (fire_viewModeTimeout w) = store w" "writes (fire_viewModeTimeout w) = writes w"
    "store (fire_saveTimeout w) = store w" "writes (fire_saveTimeout w) = writes w"
  using assms
  by (simp_all add: fire_itemsTimeout_def itemsTimeout_callback_def fire_columnByIdTimeout_def
        columnByIdTimeout_callback_def fire_viewModeTimeout_def viewModeTimeout_callback_def
        fire_saveTimeout_def saveTimeout_callback_def split: option.splits prod.splits)

lemmas fire_fields = fire_itemsTimeout_fields fire_columnByIdTimeout_fields
  fire_viewModeTimeout_fields fire_saveTimeout_fields

lemma advance_fields:
  "importInProgress (advance d w) = importInProgress w"
  "clock (advance d w) = clock w + d"
  "items (advance d w) = items w"
  "columnById (advance d w) = columnById w"
  "viewMode (advance d w) = viewMode w"
  "hasHydratedRef (advance d w) = hasHydratedRef w"
  "documents (advance d w) = documents w"
  "editingItemId (advance d w) = editingItemId w"
  "itemsTimeoutRef (advance d w)
     = (case itemsTimeoutRef w of None \<Rightarrow> None
        | Some (deadline, v) \<Rightarrow> if deadline \<le> clock w + d then None else Some (deadline, v))"
  "columnByIdTimeoutRef (advance d w)
     = (case columnByIdTimeoutRef w of None \<Rightarrow> None
        | Some (deadline, v) \<Rightarrow> if deadline \<le> clock w + d then None else Some (deadline, v))"
  "viewModeTimeoutRef (advance d w)
     = (case viewModeTimeoutRef w of None \<Rightarrow> None
        | Some (deadline, v) \<Rightarrow> if deadline \<le> clock w + d then None else Some (deadline, v))"
  "saveTimeoutRef (advance d w)
     = (case saveTimeoutRef w of None \<Rightarrow> None
        | Some deadline \<Rightarrow> if deadline \<le> clock w + d then None else Some deadline)"
  "pendingSavesRef (advance d w)
     = (case saveTimeoutRef w of None \<Rightarrow> pendingSavesRef w
        | Some deadline \<Rightarrow> if deadline \<le> clock w + d then [] else pendingSavesRef w)"
  by (simp_all add: advance_def fire_fields split: option.splits prod.splits)

lemma advance_suspended:
  assumes "importInProgress w"
  shows "store (advance d w) = store w" "writes (advance d w) = writes w"
  using assms by (simp_all add: advance_def fire_suspended fire_fields)

lemma deadlines_advance:
  "deadlines (advance d w) = filter (\<lambda>deadline. clock w + d < deadline) (deadlines w)"
  by (simp add: deadlines_def advance_fields split: option.splits)

lemma advance_idle:
  assumes "deadlines w = []"
  shows "store (advance d w) = store w" "writes (advance d w) = writes w"
  using assms
  by (simp_all add: deadlines_def advance_def fire_itemsTimeout_def fire_columnByIdTimeout_def
        fire_viewModeTimeout_def fire_saveTimeout_def split: option.splits prod.splits)

section \<open>Pending saves are for documents in memory\<close>

lemma pending_in_memory_iff:
  "pending_in_memory w =
     (\<forall>(k, d) \<in> set (pendingSavesRef w).
        \<exists>doc \<in> set (documents w). doc_id doc = k \<and> taskId doc = taskId d)"
  by (auto simp: pending_in_memory_def list_all_iff list_ex_iff)

lemma pending_in_memory_cong:
  "documents w' = documents w \<Longrightarrow> pendingSavesRef w' = pendingSavesRef w \<Longrightarrow>
     pending_in_memory w' = pending_in_memory w"
  by (simp add: pending_in_memory_def)

lemma pending_in_memory_empty: "pendingSavesRef w = [] \<Longrightarrow> pending_in_memory w"
  by (simp add: pending_in_memory_def)

lemma set_update_subset: "set (AList.update k v al) \<subseteq> insert (k, v) (set al)"
  by (induction al) auto

lemma set_fold_delete:
  "set (fold (\<lambda>doc. AList.delete (doc_id doc)) ds al) = {p \<in> set al. fst p \<notin> doc_id ` set ds}"
  by (induction ds arbitrary: al) (auto simp: AList.delete_eq)

lemma fold_scheduleSave_pending:
  "set (pendingSavesRef (fold scheduleSave us w))
     \<subseteq> set (pendingSavesRef w) \<union> (\<lambda>u. (doc_id u, u)) ` set us"
proof (induction us arbitrary: w)
  case Nil
  show ?case by simp
next
  case (Cons u us)
  have "set (pendingSavesRef (scheduleSave u w)) \<subseteq> insert (doc_id u, u) (set (pendingSavesRef w))"
    by (simp add: scheduleSave_def set_update_subset)
  with Cons.IH [of "scheduleSave u w"] show ?case
    by auto
qed

lemma fold_setColumnById_documents:
  "documents (fold (\<lambda>item w'. setColumnById (f item w') w') ms w) = documents w"
  "pendingSavesRef (fold (\<lambda>item w'. setColumnById (f item w') w') ms w) = pendingSavesRef w"
  by (induction ms arbitrary: w) (simp_all add: setColumnById_frame)

lemma toggleSubTask_documents:
  "documents (toggleSubTask s w) = documents w"
  "pendingSavesRef (toggleSubTask s w) = pendingSavesRef w"
  by (simp_all add: toggleSubTask_def Let_def fold_setColumnById_documents setItems_fields
        split: option.splits)

lemma addItem_documents:
  "documents (addItem n l w) = documents w"
  "pendingSavesRef (addItem n l w) = pendingSavesRef w"
  by (simp_all add: addItem_def setColumnById_fields setItems_fields)

lemma task_flush_documents:
  "documents (task_flushPendingSaves w) = documents w"
  "pendingSavesRef (task_flushPendingSaves w) = pendingSavesRef w"
  by (simp_all add: task_flushPendingSaves_def Let_def issue_setSetting_fields
        issue_saveTasks_fields)

lemma addDocument_pending_in_memory:
  assumes "pending_in_memory w"
  shows "pending_in_memory (addDocument n t l w)"
proof -
  let ?new = "\<lparr>doc_id = n, taskId = t, title = (if l = [] then ''Untitled'' else l),
                        content = JObj [(''type'', JStr ''doc''),
                                        (''content'', JArr [JObj [(''type'', JStr ''paragraph'')]])],
                        createdAt = clock w, updatedAt = clock w\<rparr>"
  have p: "set (pendingSavesRef (addDocument n t l w)) \<subseteq> insert (n, ?new) (set (pendingSavesRef w))"
    using set_update_subset [of n ?new "pendingSavesRef w"]
    by (simp add: addDocument_def scheduleSave_def Let_def)
  have d: "set (documents (addDocument n t l w)) = insert ?new (set (documents w))"
    by (simp add: addDocument_fields)
  show ?thesis
    unfolding pending_in_memory_iff d
  proof (clarify)
    fix k x
    assume "(k, x) \<in> set (pendingSavesRef (addDocument n t l w))"
    with p have "(k, x) = (n, ?new) \<or> (k, x) \<in> set (pendingSavesRef w)" by auto
    then show "\<exists>doc \<in> insert ?new (set (documents w)). doc_id doc = k \<and> taskId doc = taskId x"
    proof
      assume "(k, x) = (n, ?new)"
      then show ?thesis by simp
    next
      assume "(k, x) \<in> set (pendingSavesRef w)"
      with assms obtain doc where "doc \<in> set (documents w)" "doc_id doc = k" "taskId doc = taskId x"
        unfolding pending_in_memory_iff by blast
      then show ?thesis by blast
    qed
  qed
qed

lemma updated_document_ids:
  "doc_id (updated_document nt nc now doc) = doc_id doc"
  "taskId (updated_document nt nc now doc) = taskId doc"
  by (simp_all add: updated_document_def)

lemma updateDocument_pending_in_memory:
  assumes "pending_in_memory w"
  shows "pending_in_memory (updateDocument i nt nc w)"
proof -
  let ?upd = "updated_document nt nc (clock w)"
  let ?step = "\<lambda>doc. if doc_id doc \<noteq> i then doc else ?upd doc"
  let ?hit = "filter (\<lambda>doc. doc_id doc = i) (documents w)"
  have d: "documents (updateDocument i nt nc w) = map ?step (documents w)"
    by (simp add: updateDocument_fields)
  have "pendingSavesRef (updateDocument i nt nc w)
          = pendingSavesRef (fold scheduleSave (map ?upd ?hit) (w\<lparr>documents := map ?step (documents w)\<rparr>))"
    by (simp add: updateDocument_def Let_def)
  then have p: "set (pendingSavesRef (updateDocument i nt nc w))
      \<subseteq> set (pendingSavesRef w) \<union> (\<lambda>u. (doc_id u, u)) ` set (map ?upd ?hit)"
    using fold_scheduleSave_pending [of "map ?upd ?hit" "w\<lparr>documents := map ?step (documents w)\<rparr>"]
    by simp
  have image: "\<exists>doc' \<in> set (map ?step (documents w)). doc_id doc' = doc_id doc \<and> taskId doc' = taskId doc"
    if "doc \<in> set (documents w)" for doc
  proof -
    have "?step doc \<in> set (map ?step (documents w))" using that by simp
    moreover have "doc_id (?step doc) = doc_id doc \<and> taskId (?step doc) = taskId doc"
      by (simp add: updated_document_ids)
    ultimately show ?thesis by blast
  qed
  show ?thesis
    unfolding pending_in_memory_iff d
  proof (clarify)
    fix k x
    assume "(k, x) \<in> set (pendingSavesRef (updateDocument i nt nc w))"
    with p have "(k, x) \<in> set (pendingSavesRef w) \<or> (k, x) \<in> (\<lambda>u. (doc_id u, u)) ` set (map ?upd ?hit)"
      by blast
    then show "\<exists>doc \<in> set (map ?step (documents w)). doc_id doc = k \<and> taskId doc = taskId x"
    proof
      assume "(k, x) \<in> set (pendingSavesRef w)"
      with assms obtain doc where "doc \<in> set (documents w)" "doc_id doc = k" "taskId doc = taskId x"
        unfolding pending_in_memory_iff by blast
      with image [of doc] show ?thesis by auto
    next
      assume "(k, x) \<in> (\<lambda>u. (doc_id u, u)) ` set (map ?upd ?hit)"
      then obtain doc where doc: "doc \<in> set (documents w)" "doc_id doc = i" "x = ?upd doc" "k = doc_id x"
        by auto
      with image [of doc] show ?thesis
        by (auto simp: updated_document_ids)
    qed
  qed
qed

lemma deleteDocument_pending_in_memory:
  assumes "pending_in_memory w"
  shows "pending_in_memory (deleteDocument i w)"
  using assms unfolding pending_in_memory_iff
  by (fastforce simp: deleteDocument_fields AList.delete_eq)

lemma deleteDocumentsByTaskId_pending_in_memory:
  assumes "pending_in_memory w"
  shows "pending_in_memory (deleteDocumentsByTaskId t w)"
  unfolding pending_in_memory_iff deleteDocumentsByTaskId_fields set_fold_delete
proof (clarify)
  fix k x
  assume kx: "(k, x) \<in> set (pendingSavesRef w)"
    and keep: "fst (k, x) \<notin> doc_id ` set (filter (\<lambda>doc. taskId doc = t) (documents w))"
  from assms kx obtain doc where doc: "doc \<in> set (documents w)" "doc_id doc = k" "taskId doc = taskId x"
    unfolding pending_in_memory_iff by blast
  with keep have "taskId doc \<noteq> t" by auto
  with doc show "\<exists>doc \<in> set (filter (\<lambda>doc. taskId doc \<noteq> t) (documents w)).
                   doc_id doc = k \<and> taskId doc = taskId x"
    by auto
qed

lemma deleteDocumentsByTaskId_cancels:
  assumes "pending_in_memory w"
  shows "\<forall>(k, d) \<in> set (pendingSavesRef (deleteDocumentsByTaskId t w)). taskId d \<noteq> t"
  unfolding deleteDocumentsByTaskId_fields set_fold_delete
proof (clarify)
  fix k x
  assume kx: "(k, x) \<in> set (pendingSavesRef w)"
    and keep: "fst (k, x) \<notin> doc_id ` set (filter (\<lambda>doc. taskId doc = taskId x) (documents w))"
    and t: "t = taskId x"
  from assms kx obtain doc where doc: "doc \<in> set (documents w)" "doc_id doc = k" "taskId doc = taskId x"
    unfolding pending_in_memory_iff by blast
  with keep show False by auto
qed

lemma removeItem_documents:
  "documents (removeItem i w) = documents (deleteDocumentsByTaskId i w)"
  "pendingSavesRef (removeItem i w) = pendingSavesRef (deleteDocumentsByTaskId i w)"
  "store (removeItem i w) = store (deleteDocumentsByTaskId i w)"
  "items (removeItem i w) = filter (\<lambda>item. task_id item \<noteq> i) (items w)"
  "columnById (removeItem i w) = AList.delete i (columnById w)"
  "inFlightSaves (removeItem i w) = inFlightSaves w"
  by (simp_all add: removeItem_def Let_def setColumnById_fields setItems_fields
        deleteDocumentsByTaskId_fields)

lemma document_flush_pending: "pendingSavesRef (document_flushPendingSaves w) = []"
  by (simp add: document_flushPendingSaves_def Let_def start_saves_fields)

lemma advance_pending_in_memory:
  assumes "pending_in_memory w"
  shows "pending_in_memory (advance d w)"
  using assms
  by (simp add: pending_in_memory_def advance_fields split: option.splits)

lemma reachable_pending_in_memory: "reachable w \<Longrightarrow> pending_in_memory w"
proof (induction rule: reachable.induct)
  case (start w)
  then show ?case by (simp add: hydrated_def pending_in_memory_empty)
next
  case (setItems w v)
  then show ?case
    using pending_in_memory_cong [of "setItems v w" w] by (simp add: setItems_fields)
next
  case (setColumnById w c)
  then show ?case
    using pending_in_memory_cong [of "setColumnById c w" w] by (simp add: setColumnById_fields)
next
  case (setViewMode w m)
  then show ?case
    using pending_in_memory_cong [of "setViewMode m w" w] by (simp add: setViewMode_fields)
next
  case (task_flush w)
  then show ?case
    using pending_in_memory_cong [of "task_flushPendingSaves w" w]
    by (simp add: task_flush_documents)
next
  case (addDocument w n t l)
  then show ?case by (simp add: addDocument_pending_in_memory)
next
  case (updateDocument w i nt nc)
  then show ?case by (simp add: updateDocument_pending_in_memory)
next
  case (deleteDocument w i)
  then show ?case by (simp add: deleteDocument_pending_in_memory)
next
  case (deleteDocumentsByTaskId w t)
  then show ?case by (simp add: deleteDocumentsByTaskId_pending_in_memory)
next
  case (document_flush w)
  then show ?case by (simp add: pending_in_memory_empty document_flush_pending)
next
  case (addItem w n l)
  then show ?case
    using pending_in_memory_cong [of "addItem n l w" w] by (simp add: addItem_documents)
next
  case (removeItem w i)
  then have "pending_in_memory (deleteDocumentsByTaskId i w)"
    by (simp add: deleteDocumentsByTaskId_pending_in_memory)
  then show ?case
    using pending_in_memory_cong [of "removeItem i w" "deleteDocumentsByTaskId i w"]
    by (simp add: removeItem_documents)
next
  case (toggleSubTask w s)
  then show ?case
    using pending_in_memory_cong [of "toggleSubTask s w" w] by (simp add: toggleSubTask_documents)
next
  case (openEditor w e)
  then show ?case by (simp add: pending_in_memory_def)
next
  case (setImportInProgress w b)
  then show ?case by (simp add: pending_in_memory_def setImportInProgress_def)
next
  case (advance w d)
  then show ?case by (simp add: advance_pending_in_memory)
next
  case (handleDrop w i c)
  then show ?case
    using pending_in_memory_cong [of "handleDrop i c w" w] by (simp add: handleDrop_fields)
next
  case (resume w i)
  then show ?case
    using pending_in_memory_cong [of "resume i w" w] by (simp add: resume_fields)
qed
section \<open>Cascade delete\<close>

lemma place_list_all: "list_all P t \<Longrightarrow> P r \<Longrightarrow> list_all P (place kp k r t)"
  by (induction t) (auto split: option.splits)

lemma saveTasks_documents: "db_documents (caught (saveTasks ts s) s) = db_documents s"
  by (auto simp: caught_def saveTasks_def bind_js_def Let_def split: sum.splits)

lemma setSetting_documents: "db_documents (caught (setSetting k v s) s) = db_documents s"
  by (auto simp: caught_def setSetting_def bind_js_def split: sum.splits)

lemma saveDocument_none_of_task:
  assumes "none_of_task t (db_documents s)" and "taskId d \<noteq> t"
  shows "none_of_task t (db_documents (caught (saveDocument (DocumentRecord_json d) s) s))"
proof -
  have "field (Some (DocumentRecord_json d)) ''taskId'' \<noteq> Some (JStr t)"
    using assms(2) by (simp add: DocumentRecord_json_def)
  then show ?thesis
    using assms(1)
    by (auto simp: caught_def saveDocument_def bind_js_def Table_put_def none_of_task_def
          place_list_all split: sum.splits option.splits)
qed

lemma issue_saveDocument_none_of_task:
  "none_of_task t (db_documents (store w)) \<Longrightarrow> taskId d \<noteq> t \<Longrightarrow>
     none_of_task t (db_documents (store (issue_saveDocument d w)))"
  by (simp add: issue_saveDocument_def saveDocument_none_of_task)

lemma start_saves_none_of_task:
  assumes "none_of_task t (db_documents (store w))" and "list_all (\<lambda>d. taskId d \<noteq> t) ds"
  shows "none_of_task t (db_documents (store (start_saves ds w)))"
  using assms
  by (cases ds) (simp_all add: start_saves_def Let_def issue_saveDocument_none_of_task)

lemma start_saves_none_in_flight:
  assumes "none_in_flight t w" and "list_all (\<lambda>d. taskId d \<noteq> t) ds"
  shows "none_in_flight t (start_saves ds w)"
  using assms
  by (cases ds) (simp_all add: none_in_flight_def start_saves_fields)

lemma fire_documents_table:
  "db_documents (store (fire_itemsTimeout w)) = db_documents (store w)"
  "db_documents (store (fire_columnByIdTimeout w)) = db_documents (store w)"
  "db_documents (store (fire_viewModeTimeout w)) = db_documents (store w)"
  by (simp_all add: fire_itemsTimeout_def itemsTimeout_callback_def issue_saveTasks_def
        fire_columnByIdTimeout_def columnByIdTimeout_callback_def fire_viewModeTimeout_def
        viewModeTimeout_callback_def issue_setSetting_def saveTasks_documents
        setSetting_documents split: option.splits prod.splits)

lemma fire_saveTimeout_none_of_task:
  assumes "none_of_task t (db_documents (store w))"
    and "list_all (\<lambda>(k, d). taskId d \<noteq> t) (pendingSavesRef w)"
    and "none_in_flight t w"
  shows "none_of_task t (db_documents (store (fire_saveTimeout w)))"
    and "none_in_flight t (fire_saveTimeout w)"
proof -
  have ds: "list_all (\<lambda>d. taskId d \<noteq> t) (map snd (pendingSavesRef w))"
    using assms(2) by (auto simp: list_all_iff)
  have flight: "none_in_flight t (w\<lparr>saveTimeoutRef := None, pendingSavesRef := []\<rparr>)"
    "none_in_flight t (w\<lparr>saveTimeoutRef := None\<rparr>)"
    using assms(3) by (simp_all add: none_in_flight_def)
  show "none_of_task t (db_documents (store (fire_saveTimeout w)))"
    using assms(1) ds
    by (simp add: fire_saveTimeout_def saveTimeout_callback_def Let_def
          start_saves_none_of_task split: option.splits)
  show "none_in_flight t (fire_saveTimeout w)"
    using assms(3) ds flight
    by (simp add: fire_saveTimeout_def saveTimeout_callback_def Let_def
          start_saves_none_in_flight split: option.splits)
qed

lemma advance_none_of_task:
  assumes "none_of_task t (db_documents (store w))"
    and "list_all (\<lambda>(k, d). taskId d \<noteq> t) (pendingSavesRef w)"
    and "none_in_flight t w"
  shows "none_of_task t (db_documents (store (advance d w)))"
    and "list_all (\<lambda>(k, d). taskId d \<noteq> t) (pendingSavesRef (advance d w))"
    and "none_in_flight t (advance d w)"
proof -
  let ?w = "fire_viewModeTimeout (fire_columnByIdTimeout (fire_itemsTimeout
       (w\<lparr>clock := clock w + d\<rparr>)))"
  have s: "none_of_task t (db_documents (store ?w))"
    using assms(1) by (simp add: fire_documents_table)
  have p: "list_all (\<lambda>(k, d). taskId d \<noteq> t) (pendingSavesRef ?w)"
    using assms(2) by (simp add: fire_fields)
  have f: "none_in_flight t ?w"
    using assms(3) by (simp add: none_in_flight_def fire_fields)
  show "none_of_task t (db_documents (store (advance d w)))"
    using fire_saveTimeout_none_of_task(1) [OF s p f] by (simp add: advance_def)
  show "none_in_flight t (advance d w)"
    using fire_saveTimeout_none_of_task(2) [OF s p f] by (simp add: advance_def)
  show "list_all (\<lambda>(k, d). taskId d \<noteq> t) (pendingSavesRef (advance d w))"
    using assms(2) by (simp add: advance_fields split: option.splits)
qed

lemma resume_none_of_task:
  assumes "none_of_task t (db_documents (store w))"
    and "list_all (\<lambda>(k, d). taskId d \<noteq> t) (pendingSavesRef w)"
    and "none_in_flight t w"
  shows "none_of_task t (db_documents (store (resume i w)))"
    and "list_all (\<lambda>(k, d). taskId d \<noteq> t) (pendingSavesRef (resume i w))"
    and "none_in_flight t (resume i w)"
proof -
  show "list_all (\<lambda>(k, d). taskId d \<noteq> t) (pendingSavesRef (resume i w))"
    using assms(2) by (simp add: resume_fields)
  show "none_of_task t (db_documents (store (resume i w)))"
  proof (cases "i < length (inFlightSaves w)")
    case False
    then show ?thesis using assms(1) by (simp add: resume_def)
  next
    case True
    then have "inFlightSaves w ! i \<in> set (inFlightSaves w)" by simp
    then have loop: "list_all (\<lambda>d. taskId d \<noteq> t) (inFlightSaves w ! i)"
      using assms(3) by (simp add: none_in_flight_def list_all_iff)
    show ?thesis
    proof (cases "inFlightSaves w ! i")
      case Nil
      then show ?thesis using True assms(1) by (simp add: resume_def)
    next
      case (Cons doc rest)
      then have "taskId doc \<noteq> t" using loop by simp
      then show ?thesis
        using True Cons assms(1)
        by (simp add: resume_def issue_saveDocument_none_of_task)
    qed
  qed
  show "none_in_flight t (resume i w)"
  proof (cases "i < length (inFlightSaves w)")
    case False
    then show ?thesis using assms(3) by (simp add: resume_def)
  next
    case True
    have all: "\<forall>l \<in> set (inFlightSaves w). list_all (\<lambda>d. taskId d \<noteq> t) l"
      using assms(3) by (simp add: none_in_flight_def list_all_iff)
    have cut: "\<forall>l \<in> set (take i (inFlightSaves w) @ drop (Suc i) (inFlightSaves w)).
                 list_all (\<lambda>d. taskId d \<noteq> t) l"
      using all by (auto dest: in_set_takeD in_set_dropD)
    from True have "inFlightSaves w ! i \<in> set (inFlightSaves w)" by simp
    with all have loop: "list_all (\<lambda>d. taskId d \<noteq> t) (inFlightSaves w ! i)" by blast
    show ?thesis
    proof (cases "inFlightSaves w ! i")
      case Nil
      then show ?thesis
        using True cut by (simp add: resume_def none_in_flight_def list_all_iff)
    next
      case (Cons doc rest)
      then have rest: "list_all (\<lambda>d. taskId d \<noteq> t) rest" using loop by simp
      have upd: "\<forall>l \<in> set ((inFlightSaves w)[i := rest]). list_all (\<lambda>d. taskId d \<noteq> t) l"
        using all rest by (auto dest: set_update_subset_insert [THEN subsetD])
      show ?thesis
        using True Cons cut upd
        by (simp add: resume_def none_in_flight_def list_all_iff issue_saveDocument_fields)
    qed
  qed
qed

lemma fold_after_none_of_task:
  "none_of_task t (db_documents (store w)) \<Longrightarrow>
   list_all (\<lambda>(k, d). taskId d \<noteq> t) (pendingSavesRef w) \<Longrightarrow>
   none_in_flight t w \<Longrightarrow>
   none_of_task t (db_documents (store (fold after ls w)))"
proof (induction ls arbitrary: w)
  case Nil
  then show ?case by simp
next
  case (Cons l ls)
  have "none_of_task t (db_documents (store (after l w)))
      \<and> list_all (\<lambda>(k, d). taskId d \<noteq> t) (pendingSavesRef (after l w))
      \<and> none_in_flight t (after l w)"
  proof (cases l)
    case (Time_passes d)
    then show ?thesis
      using advance_none_of_task [OF Cons.prems] by simp
  next
    case (Save_resumes i)
    then show ?thesis
      using resume_none_of_task [OF Cons.prems] by simp
  qed
  then show ?case
    using Cons.IH by simp
qed

text \<open>
  \<^verbatim>\<open>removeItem\<close> of a task removes the task from the items and its entry from
  \<^verbatim>\<open>columnById\<close>, removes every document of the task, and no other, from memory and from the
  store, and leaves no pending save for a document of the task.  When no save loop that
  is running has a document of the task still to save, the store holds no document of the
  task from then on, however much time passes, whichever timers fire and however the save
  loops go on.
\<close>

lemma cascade_delete_with_no_save_in_flight:
  assumes "reachable w"
  shows "list_all (\<lambda>item. task_id item \<noteq> t) (items (removeItem t w))
     \<and> map_of (columnById (removeItem t w)) t = None
     \<and> documents (removeItem t w) = filter (\<lambda>doc. taskId doc \<noteq> t) (documents w)
     \<and> db_documents (store (removeItem t w))
         = filter (\<lambda>r. field (Some r) ''taskId'' \<noteq> Some (JStr t)) (db_documents (store w))
     \<and> none_of_task t (db_documents (store (removeItem t w)))
     \<and> list_all (\<lambda>(k, d). taskId d \<noteq> t) (pendingSavesRef (removeItem t w))
     \<and> (none_in_flight t w \<longrightarrow>
          (\<forall>ls. none_of_task t (db_documents (store (fold after ls (removeItem t w))))))"
proof -
  have inv: "pending_in_memory w"
    using assms by (rule reachable_pending_in_memory)
  have items: "list_all (\<lambda>item. task_id item \<noteq> t) (items (removeItem t w))"
    by (simp add: removeItem_documents list_all_iff)
  have column: "map_of (columnById (removeItem t w)) t = None"
    by (simp add: removeItem_documents delete_conv')
  have memory: "documents (removeItem t w) = filter (\<lambda>doc. taskId doc \<noteq> t) (documents w)"
    by (simp add: removeItem_documents deleteDocumentsByTaskId_fields)
  have table: "db_documents (store (removeItem t w))
         = filter (\<lambda>r. field (Some r) ''taskId'' \<noteq> Some (JStr t)) (db_documents (store w))"
    by (simp add: removeItem_documents deleteDocumentsByTaskId_fields
          deleteDocumentsByTaskIdFromDb_def Table_where_equals_delete_def)
  have stored: "none_of_task t (db_documents (store (removeItem t w)))"
    by (simp add: table none_of_task_def list_all_iff)
  have pending: "list_all (\<lambda>(k, d). taskId d \<noteq> t) (pendingSavesRef (removeItem t w))"
    using deleteDocumentsByTaskId_cancels [OF inv, of t]
    by (simp add: removeItem_documents list_all_iff)
  have later: "none_of_task t (db_documents (store (fold after ls (removeItem t w))))"
    if "none_in_flight t w" for ls
  proof -
    from that have "none_in_flight t (removeItem t w)"
      by (simp add: none_in_flight_def removeItem_documents)
    with stored pending show ?thesis
      by (rule fold_after_none_of_task)
  qed
  show ?thesis
    using items column memory table stored pending later by blast
qed

text \<open>
  Claim C7 does not hold of the code when a save loop is running.  In \<open>world_saving\<close> two
  documents were changed within the window, the new document \<open>d3\<close> of task \<open>b\<close> and then
  document \<open>d1\<close> of task \<open>a\<close>; the timer has fired, the map of pending saves is empty, the
  write of \<open>d3\<close> is issued and the loop waits for it with \<open>d1\<close> still to save.  Now task \<open>a\<close>
  is removed: \<^verbatim>\<open>deleteDocumentsByTaskId\<close> finds nothing to cancel in the map, and deletes
  the documents of \<open>a\<close> from memory and from the store.  Then the loop goes on and saves
  \<open>d1\<close>: the store holds a document of the removed task again, which nothing in memory
  stands for.
\<close>

theorem removed_task_document_resurrected:
  "reachable (resume 0 (removeItem ''a'' world_saving))
   \<and> pendingSavesRef world_saving = []
   \<and> saveTimeoutRef world_saving = None
   \<and> map (map doc_id) (inFlightSaves world_saving) = [[''d1'']]
   \<and> map (map taskId) (inFlightSaves world_saving) = [[''a'']]
   \<and> map task_id (items (removeItem ''a'' world_saving)) = [''b'']
   \<and> map doc_id (documents (removeItem ''a'' world_saving)) = [''d3'']
   \<and> map (\<lambda>r. field (Some r) ''id'') (db_documents (store (removeItem ''a'' world_saving)))
       = [Some (JStr ''d3'')]
   \<and> none_of_task ''a'' (db_documents (store (removeItem ''a'' world_saving)))
   \<and> map (\<lambda>r. (field (Some r) ''id'', field (Some r) ''taskId'', field (Some r) ''title''))
        (db_documents (store (resume 0 (removeItem ''a'' world_saving))))
       = [(Some (JStr ''d1''), Some (JStr ''a''), Some (JStr ''new title'')),
          (Some (JStr ''d3''), Some (JStr ''b''), Some (JStr ''plan''))]
   \<and> map task_id (items (resume 0 (removeItem ''a'' world_saving))) = [''b'']
   \<and> map doc_id (documents (resume 0 (removeItem ''a'' world_saving))) = [''d3'']
   \<and> inFlightSaves (resume 0 (removeItem ''a'' world_saving)) = []
   \<and> pendingSavesRef (resume 0 (removeItem ''a'' world_saving)) = []
   \<and> saveTimeoutRef (resume 0 (removeItem ''a'' world_saving)) = None"
proof -
  have "hydrated world0"
    by (simp add: hydrated_def world0_def)
  then have r: "reachable (resume 0 (removeItem ''a'' world_saving))"
    unfolding world_saving_def
    by (intro reachable.resume reachable.removeItem reachable.advance reachable.updateDocument
          reachable.addDocument reachable.start)
  have e: "pendingSavesRef world_saving = []"
    "saveTimeoutRef world_saving = None"
    "map (map doc_id) (inFlightSaves world_saving) = [[''d1'']]"
    "map (map taskId) (inFlightSaves world_saving) = [[''a'']]"
    by (simp_all add: world_saving_def hook_defs start_saves_def world_defs example_defs)
  have m: "map task_id (items (removeItem ''a'' world_saving)) = [''b'']"
    "map doc_id (documents (removeItem ''a'' world_saving)) = [''d3'']"
    "map (\<lambda>r. field (Some r) ''id'') (db_documents (store (removeItem ''a'' world_saving)))
       = [Some (JStr ''d3'')]"
    "none_of_task ''a'' (db_documents (store (removeItem ''a'' world_saving)))"
    by (simp_all add: world_saving_def hook_defs start_saves_def removeItem_def
          deleteDocumentsByTaskId_def deleteDocumentsByTaskIdFromDb_def
          Table_where_equals_delete_def setItems_def setColumnById_def none_of_task_def
          world_defs example_defs)
  have l: "map (\<lambda>r. (field (Some r) ''id'', field (Some r) ''taskId'', field (Some r) ''title''))
        (db_documents (store (resume 0 (removeItem ''a'' world_saving))))
       = [(Some (JStr ''d1''), Some (JStr ''a''), Some (JStr ''new title'')),
          (Some (JStr ''d3''), Some (JStr ''b''), Some (JStr ''plan''))]"
    "map task_id (items (resume 0 (removeItem ''a'' world_saving))) = [''b'']"
    "map doc_id (documents (resume 0 (removeItem ''a'' world_saving))) = [''d3'']"
    "inFlightSaves (resume 0 (removeItem ''a'' world_saving)) = []"
    "pendingSavesRef (resume 0 (removeItem ''a'' world_saving)) = []"
    "saveTimeoutRef (resume 0 (removeItem ''a'' world_saving)) = None"
    by (simp_all add: world_saving_def hook_defs start_saves_def removeItem_def resume_def
          deleteDocumentsByTaskId_def deleteDocumentsByTaskIdFromDb_def
          Table_where_equals_delete_def setItems_def setColumnById_def
          world_defs example_defs)
  show ?thesis
    using r e m l by blast
qed
section \<open>Debounce\<close>

lemma fire_itemsTimeout_writes:
  "writes (fire_itemsTimeout w)
     = writes w @ (case itemsTimeoutRef w of None \<Rightarrow> []
                   | Some (deadline, v) \<Rightarrow>
                       if deadline \<le> clock w \<and> \<not> importInProgress w then [SaveTasks v] else [])"
  by (simp add: fire_itemsTimeout_def itemsTimeout_callback_def issue_saveTasks_fields
        split: option.splits prod.splits)

lemma fire_columnByIdTimeout_writes:
  "writes (fire_columnByIdTimeout w)
     = writes w @ (case columnByIdTimeoutRef w of None \<Rightarrow> []
                   | Some (deadline, v) \<Rightarrow>
                       if deadline \<le> clock w \<and> \<not> importInProgress w
                       then [SetSetting ''columnById'' (columnById_json v)] else [])"
  by (simp add: fire_columnByIdTimeout_def columnByIdTimeout_callback_def issue_setSetting_fields
        split: option.splits prod.splits)

lemma fire_viewModeTimeout_writes:
  "writes (fire_viewModeTimeout w)
     = writes w @ (case viewModeTimeoutRef w of None \<Rightarrow> []
                   | Some (deadline, v) \<Rightarrow>
                       if deadline \<le> clock w \<and> \<not> importInProgress w
                       then [SetSetting ''viewMode'' (ViewMode_json v)] else [])"
  by (simp add: fire_viewModeTimeout_def viewModeTimeout_callback_def issue_setSetting_fields
        split: option.splits prod.splits)

lemma fire_saveTimeout_writes:
  "writes (fire_saveTimeout w)
     = writes w @ (case saveTimeoutRef w of None \<Rightarrow> []
                   | Some deadline \<Rightarrow>
                       if deadline \<le> clock w \<and> \<not> importInProgress w
                       then map SaveDocument (take 1 (map snd (pendingSavesRef w))) else [])"
  by (simp add: fire_saveTimeout_def saveTimeout_callback_def Let_def
        start_saves_fields split: option.splits)

lemma fire_saveTimeout_inFlightSaves:
  "inFlightSaves (fire_saveTimeout w)
     = inFlightSaves w @ (case saveTimeoutRef w of None \<Rightarrow> []
                          | Some deadline \<Rightarrow>
                              if deadline \<le> clock w \<and> \<not> importInProgress w
                                 \<and> drop 1 (map snd (pendingSavesRef w)) \<noteq> []
                              then [drop 1 (map snd (pendingSavesRef w))] else [])"
  by (simp add: fire_saveTimeout_def saveTimeout_callback_def Let_def
        start_saves_fields split: option.splits)

lemma advance_inFlightSaves:
  "inFlightSaves (advance d w)
     = inFlightSaves w @ (case saveTimeoutRef w of None \<Rightarrow> []
                          | Some deadline \<Rightarrow>
                              if deadline \<le> clock w + d \<and> \<not> importInProgress w
                                 \<and> drop 1 (map snd (pendingSavesRef w)) \<noteq> []
                              then [drop 1 (map snd (pendingSavesRef w))] else [])"
  by (simp add: advance_def fire_saveTimeout_inFlightSaves fire_fields split: option.splits)

lemma fold_fold_issue_saveDocument_writes:
  "writes (fold (fold issue_saveDocument) ls w) = writes w @ map SaveDocument (concat ls)"
  "inFlightSaves (fold (fold issue_saveDocument) ls w) = inFlightSaves w"
  by (induction ls arbitrary: w) (simp_all add: fold_issue_saveDocument_fields)

lemma settle_fields:
  "writes (settle w) = writes w @ map SaveDocument (concat (inFlightSaves w))"
  "inFlightSaves (settle w) = []"
  by (simp_all add: settle_def fold_fold_issue_saveDocument_writes)

text \<open>
  \<open>settle\<close> is what the save loops lead to when they go on with nothing in between: it
  does nothing when no loop is running, and a step of the first loop does not change what
  it gives.
\<close>

lemma settle_idle: "inFlightSaves w = [] \<Longrightarrow> settle w = w"
  by (simp add: settle_def)

lemma settle_resume: "settle (resume 0 w) = settle w"
proof (cases "inFlightSaves w")
  case Nil
  then show ?thesis by (simp add: resume_def)
next
  case (Cons l ls)
  show ?thesis
  proof (cases l)
    case Nil
    then show ?thesis
      using Cons by (simp add: resume_def settle_def)
  next
    case c: (Cons doc rest)
    have "(issue_saveDocument doc (w\<lparr>inFlightSaves := x\<rparr>))\<lparr>inFlightSaves := []\<rparr>
        = issue_saveDocument doc (w\<lparr>inFlightSaves := []\<rparr>)" for x
      by (simp add: issue_saveDocument_def)
    then show ?thesis
      using Cons c by (simp add: resume_def settle_def issue_saveDocument_fields)
  qed
qed

lemma advance_writes:
  "writes (advance d w)
     = writes w
       @ (case itemsTimeoutRef w of None \<Rightarrow> []
          | Some (deadline, v) \<Rightarrow>
              if deadline \<le> clock w + d \<and> \<not> importInProgress w then [SaveTasks v] else [])
       @ (case columnByIdTimeoutRef w of None \<Rightarrow> []
          | Some (deadline, v) \<Rightarrow>
              if deadline \<le> clock w + d \<and> \<not> importInProgress w
              then [SetSetting ''columnById'' (columnById_json v)] else [])
       @ (case viewModeTimeoutRef w of None \<Rightarrow> []
          | Some (deadline, v) \<Rightarrow>
              if deadline \<le> clock w + d \<and> \<not> importInProgress w
              then [SetSetting ''viewMode'' (ViewMode_json v)] else [])
       @ (case saveTimeoutRef w of None \<Rightarrow> []
          | Some deadline \<Rightarrow>
              if deadline \<le> clock w + d \<and> \<not> importInProgress w
              then map SaveDocument (take 1 (map snd (pendingSavesRef w))) else [])"
  by (simp add: advance_def fire_itemsTimeout_writes fire_columnByIdTimeout_writes
        fire_viewModeTimeout_writes fire_saveTimeout_writes fire_fields
        split: option.splits prod.splits)

lemma filter_map_SaveDocument:
  "filter is_SaveTasks (map SaveDocument ds) = []"
  "filter (is_SetSetting k) (map SaveDocument ds) = []"
  "filter is_SaveDocument (map SaveDocument ds) = map SaveDocument ds"
  by (induction ds) simp_all

lemma advance_items_writes:
  "filter is_SaveTasks (writes (advance d w))
     = filter is_SaveTasks (writes w)
       @ (case itemsTimeoutRef w of None \<Rightarrow> []
          | Some (deadline, v) \<Rightarrow>
              if deadline \<le> clock w + d \<and> \<not> importInProgress w then [SaveTasks v] else [])"
  by (simp add: advance_writes filter_map_SaveDocument split: option.splits prod.splits)

lemma advance_columnById_writes:
  "filter (is_SetSetting ''columnById'') (writes (advance d w))
     = filter (is_SetSetting ''columnById'') (writes w)
       @ (case columnByIdTimeoutRef w of None \<Rightarrow> []
          | Some (deadline, v) \<Rightarrow>
              if deadline \<le> clock w + d \<and> \<not> importInProgress w
              then [SetSetting ''columnById'' (columnById_json v)] else [])"
  by (simp add: advance_writes filter_map_SaveDocument split: option.splits prod.splits)

lemma advance_viewMode_writes:
  "filter (is_SetSetting ''viewMode'') (writes (advance d w))
     = filter (is_SetSetting ''viewMode'') (writes w)
       @ (case viewModeTimeoutRef w of None \<Rightarrow> []
          | Some (deadline, v) \<Rightarrow>
              if deadline \<le> clock w + d \<and> \<not> importInProgress w
              then [SetSetting ''viewMode'' (ViewMode_json v)] else [])"
  by (simp add: advance_writes filter_map_SaveDocument split: option.splits prod.splits)

lemma advance_document_writes:
  "filter is_SaveDocument (writes (advance d w))
     = filter is_SaveDocument (writes w)
       @ (case saveTimeoutRef w of None \<Rightarrow> []
          | Some deadline \<Rightarrow>
              if deadline \<le> clock w + d \<and> \<not> importInProgress w
              then map SaveDocument (take 1 (map snd (pendingSavesRef w))) else [])"
  by (simp add: advance_writes filter_map_SaveDocument split: option.splits prod.splits)

lemma burst_items_state:
  assumes "hasHydratedRef w" and "gaps_below TASK_DEBOUNCE_MS rest"
  shows "itemsTimeoutRef (burst_items v rest w)
           = Some (clock (burst_items v rest w) + TASK_DEBOUNCE_MS, last (v # map snd rest))
       \<and> filter is_SaveTasks (writes (burst_items v rest w)) = filter is_SaveTasks (writes w)
       \<and> items (burst_items v rest w) = last (v # map snd rest)
       \<and> importInProgress (burst_items v rest w) = importInProgress w"
  using assms
proof (induction v rest w rule: burst_items.induct)
  case (1 v w)
  then show ?case by (simp add: setItems_fields)
next
  case (2 v gap v' rest w)
  let ?w = "advance gap (setItems (New_reference v) w)"
  from "2.prems" have gap: "gap < TASK_DEBOUNCE_MS" and rest: "gaps_below TASK_DEBOUNCE_MS rest"
    by (simp_all add: gaps_below_def)
  have h: "hasHydratedRef ?w"
    using "2.prems"(1) by (simp add: advance_fields setItems_fields)
  have quiet: "filter is_SaveTasks (writes ?w) = filter is_SaveTasks (writes w)"
    using "2.prems"(1) gap by (simp add: advance_items_writes setItems_fields)
  have flag: "importInProgress ?w = importInProgress w"
    by (simp add: advance_fields setItems_fields)
  from "2.IH" [OF h rest] quiet flag show ?case
    by simp
qed


lemma burst_columnById_state:
  assumes "hasHydratedRef w" and "gaps_below TASK_DEBOUNCE_MS rest"
  shows "columnByIdTimeoutRef (burst_columnById v rest w)
           = Some (clock (burst_columnById v rest w) + TASK_DEBOUNCE_MS, last (v # map snd rest))
       \<and> filter (is_SetSetting ''columnById'') (writes (burst_columnById v rest w)) = filter (is_SetSetting ''columnById'') (writes w)
       \<and> columnById (burst_columnById v rest w) = last (v # map snd rest)
       \<and> importInProgress (burst_columnById v rest w) = importInProgress w"
  using assms
proof (induction v rest w rule: burst_columnById.induct)
  case (1 v w)
  then show ?case by (simp add: setColumnById_fields)
next
  case (2 v gap v' rest w)
  let ?w = "advance gap (setColumnById (New_reference v) w)"
  from "2.prems" have gap: "gap < TASK_DEBOUNCE_MS" and rest: "gaps_below TASK_DEBOUNCE_MS rest"
    by (simp_all add: gaps_below_def)
  have h: "hasHydratedRef ?w"
    using "2.prems"(1) by (simp add: advance_fields setColumnById_fields)
  have quiet: "filter (is_SetSetting ''columnById'') (writes ?w) = filter (is_SetSetting ''columnById'') (writes w)"
    using "2.prems"(1) gap by (simp add: advance_columnById_writes setColumnById_fields)
  have flag: "importInProgress ?w = importInProgress w"
    by (simp add: advance_fields setColumnById_fields)
  from "2.IH" [OF h rest] quiet flag show ?case
    by simp
qed


lemma burst_viewMode_state:
  assumes "hasHydratedRef w" and "gaps_below TASK_DEBOUNCE_MS rest"
    and "changing (viewMode w) (v # map snd rest)"
  shows "viewModeTimeoutRef (burst_viewMode v rest w)
           = Some (clock (burst_viewMode v rest w) + TASK_DEBOUNCE_MS, last (v # map snd rest))
       \<and> filter (is_SetSetting ''viewMode'') (writes (burst_viewMode v rest w)) = filter (is_SetSetting ''viewMode'') (writes w)
       \<and> viewMode (burst_viewMode v rest w) = last (v # map snd rest)
       \<and> importInProgress (burst_viewMode v rest w) = importInProgress w"
  using assms
proof (induction v rest w rule: burst_viewMode.induct)
  case (1 v w)
  then show ?case by (simp add: setViewMode_fields)
next
  case (2 v gap v' rest w)
  let ?w = "advance gap (setViewMode v w)"
  from "2.prems" have gap: "gap < TASK_DEBOUNCE_MS" and rest: "gaps_below TASK_DEBOUNCE_MS rest"
    by (simp_all add: gaps_below_def)
  from "2.prems"(3) have new: "v \<noteq> viewMode w" and nxt: "changing v (v' # map snd rest)"
    by simp_all
  have h: "hasHydratedRef ?w"
    using "2.prems"(1) by (simp add: advance_fields setViewMode_fields)
  have quiet: "filter (is_SetSetting ''viewMode'') (writes ?w) = filter (is_SetSetting ''viewMode'') (writes w)"
    using "2.prems"(1) gap new by (simp add: advance_viewMode_writes setViewMode_fields)
  have flag: "importInProgress ?w = importInProgress w"
    by (simp add: advance_fields setViewMode_fields)
  have c: "changing (viewMode ?w) (v' # map snd rest)"
    using nxt by (simp add: advance_fields setViewMode_fields)
  from "2.IH" [OF h rest c] quiet flag show ?case
    by simp
qed


lemma burst_saves_state:
  assumes "gaps_below DOCUMENT_DEBOUNCE_MS rest"
  shows "saveTimeoutRef (burst_saves doc rest w)
           = Some (clock (burst_saves doc rest w) + DOCUMENT_DEBOUNCE_MS)
       \<and> filter is_SaveDocument (writes (burst_saves doc rest w))
           = filter is_SaveDocument (writes w)
       \<and> pendingSavesRef (burst_saves doc rest w)
           = fold (\<lambda>x. AList.update (doc_id x) x) (doc # map snd rest) (pendingSavesRef w)
       \<and> importInProgress (burst_saves doc rest w) = importInProgress w
       \<and> inFlightSaves (burst_saves doc rest w) = inFlightSaves w"
  using assms
proof (induction doc rest w rule: burst_saves.induct)
  case (1 doc w)
  then show ?case by (simp add: scheduleSave_def)
next
  case (2 doc gap doc' rest w)
  let ?w = "advance gap (scheduleSave doc w)"
  from "2.prems" have gap: "gap < DOCUMENT_DEBOUNCE_MS" and rest: "gaps_below DOCUMENT_DEBOUNCE_MS rest"
    by (simp_all add: gaps_below_def)
  have quiet: "filter is_SaveDocument (writes ?w) = filter is_SaveDocument (writes w)"
    using gap by (simp add: advance_document_writes scheduleSave_def)
  have pending: "pendingSavesRef ?w = AList.update (doc_id doc) doc (pendingSavesRef w)"
    using gap by (simp add: advance_fields scheduleSave_def)
  have flag: "importInProgress ?w = importInProgress w"
    by (simp add: advance_fields scheduleSave_def)
  have flight: "inFlightSaves ?w = inFlightSaves w"
    using gap by (simp add: advance_inFlightSaves scheduleSave_def)
  from "2.IH" [OF rest] quiet pending flag flight show ?case
    by simp
qed

lemma map_of_fold_update:
  "map_of (fold (\<lambda>x. AList.update (doc_id x) x) ds al)
     = fold (\<lambda>x m. m(doc_id x \<mapsto> x)) ds (map_of al)"
  by (induction ds arbitrary: al) (simp_all add: update_conv')

lemma distinct_fold_update:
  "distinct (map fst al) \<Longrightarrow> distinct (map fst (fold (\<lambda>x. AList.update (doc_id x) x) ds al))"
  by (induction ds arbitrary: al) (simp_all add: distinct_update)

text \<open>
  The timer of the document hook is not set to 500 ms, and its firing is not always one
  write: 300 ms after \<^verbatim>\<open>addDocument\<close> the new document is in the store, and when two
  documents were changed within the window the firing of the timer starts a loop that
  issues two writes, the second when the first is done.
\<close>

theorem document_debounce_counterexample:
  "saveTimeoutRef (addDocument ''d3'' ''b'' ''plan'' world0) = Some 300
   \<and> length (writes (advance 300 (addDocument ''d3'' ''b'' ''plan'' world0))) = 1
   \<and> map (\<lambda>r. field (Some r) ''id'')
        (db_documents (store (advance 300 (addDocument ''d3'' ''b'' ''plan'' world0))))
       = [Some (JStr ''d1''), Some (JStr ''d3'')]
   \<and> length (writes (settle (advance 300 (updateDocument ''d1'' (Some ''v2'') None
                (advance 100 (addDocument ''d3'' ''b'' ''plan'' world0)))))) = 2"
  by (simp add: hook_defs start_saves_def settle_def world_defs example_defs)

text \<open>
  Claim C6, as amended.  Both hooks debounce with a delay of 300 ms.  Take a hydrated hook
  while no import is in progress, and a burst of one or more mutations of one slice, each
  less than 300 ms after the one before and each changing the state of the slice: a new
  array of items, a new column map, a view mode other than the current one, a document
  to save.  After every mutation the timer of the slice is set to 300 ms from then,
  nothing of the slice is written during the burst, and once 300 ms have passed after the
  last mutation the timer has fired, once.  For the items, the column map and the view
  mode that is one store write, of the last value.  For the documents the callback
  empties the map of pending saves, which holds, for each document id, the last document
  scheduled under it, and saves its entries one after the other: the first write is
  issued when the timer fires, and when the loop has run to its end there is one
  \<^verbatim>\<open>saveDocument\<close> for each entry.
\<close>

theorem debounce_coalesces:
  assumes "hasHydratedRef w" and "\<not> importInProgress w" and "300 \<le> d"
  shows "TASK_DEBOUNCE_MS = 300 \<and> DOCUMENT_DEBOUNCE_MS = 300
     \<and> (gaps_below 300 rest_i \<longrightarrow>
          itemsTimeoutRef (burst_items v_i rest_i w)
            = Some (clock (burst_items v_i rest_i w) + 300, last (v_i # map snd rest_i))
        \<and> filter is_SaveTasks (writes (burst_items v_i rest_i w)) = filter is_SaveTasks (writes w)
        \<and> filter is_SaveTasks (writes (advance d (burst_items v_i rest_i w)))
            = filter is_SaveTasks (writes w) @ [SaveTasks (last (v_i # map snd rest_i))]
        \<and> itemsTimeoutRef (advance d (burst_items v_i rest_i w)) = None)
     \<and> (gaps_below 300 rest_c \<longrightarrow>
          columnByIdTimeoutRef (burst_columnById v_c rest_c w)
            = Some (clock (burst_columnById v_c rest_c w) + 300, last (v_c # map snd rest_c))
        \<and> filter (is_SetSetting ''columnById'') (writes (burst_columnById v_c rest_c w))
            = filter (is_SetSetting ''columnById'') (writes w)
        \<and> filter (is_SetSetting ''columnById'') (writes (advance d (burst_columnById v_c rest_c w)))
            = filter (is_SetSetting ''columnById'') (writes w)
              @ [SetSetting ''columnById'' (columnById_json (last (v_c # map snd rest_c)))]
        \<and> columnByIdTimeoutRef (advance d (burst_columnById v_c rest_c w)) = None)
     \<and> (gaps_below 300 rest_m \<and> changing (viewMode w) (v_m # map snd rest_m) \<longrightarrow>
          viewModeTimeoutRef (burst_viewMode v_m rest_m w)
            = Some (clock (burst_viewMode v_m rest_m w) + 300, last (v_m # map snd rest_m))
        \<and> filter (is_SetSetting ''viewMode'') (writes (burst_viewMode v_m rest_m w))
            = filter (is_SetSetting ''viewMode'') (writes w)
        \<and> filter (is_SetSetting ''viewMode'') (writes (advance d (burst_viewMode v_m rest_m w)))
            = filter (is_SetSetting ''viewMode'') (writes w)
              @ [SetSetting ''viewMode'' (ViewMode_json (last (v_m # map snd rest_m)))]
        \<and> viewModeTimeoutRef (advance d (burst_viewMode v_m rest_m w)) = None)
     \<and> (gaps_below 300 rest_d \<longrightarrow>
          saveTimeoutRef (burst_saves doc rest_d w)
            = Some (clock (burst_saves doc rest_d w) + 300)
        \<and> filter is_SaveDocument (writes (burst_saves doc rest_d w))
            = filter is_SaveDocument (writes w)
        \<and> map_of (pendingSavesRef (burst_saves doc rest_d w))
            = fold (\<lambda>x m. m(doc_id x \<mapsto> x)) (doc # map snd rest_d) (map_of (pendingSavesRef w))
        \<and> (distinct (map fst (pendingSavesRef w))
              \<longrightarrow> distinct (map fst (pendingSavesRef (burst_saves doc rest_d w))))
        \<and> filter is_SaveDocument (writes (advance d (burst_saves doc rest_d w)))
            = filter is_SaveDocument (writes w)
              @ map SaveDocument (take 1 (map snd (pendingSavesRef (burst_saves doc rest_d w))))
        \<and> pendingSavesRef (advance d (burst_saves doc rest_d w)) = []
        \<and> saveTimeoutRef (advance d (burst_saves doc rest_d w)) = None
        \<and> (inFlightSaves w = [] \<longrightarrow>
             filter is_SaveDocument (writes (settle (advance d (burst_saves doc rest_d w))))
               = filter is_SaveDocument (writes w)
                 @ map SaveDocument (map snd (pendingSavesRef (burst_saves doc rest_d w)))
           \<and> inFlightSaves (settle (advance d (burst_saves doc rest_d w))) = []))"
proof -
  have t: "TASK_DEBOUNCE_MS = 300" and dd: "DOCUMENT_DEBOUNCE_MS = 300"
    by (simp_all add: TASK_DEBOUNCE_MS_def DOCUMENT_DEBOUNCE_MS_def)
  have i: "itemsTimeoutRef (burst_items v_i rest_i w)
            = Some (clock (burst_items v_i rest_i w) + 300, last (v_i # map snd rest_i))
        \<and> filter is_SaveTasks (writes (burst_items v_i rest_i w)) = filter is_SaveTasks (writes w)
        \<and> filter is_SaveTasks (writes (advance d (burst_items v_i rest_i w)))
            = filter is_SaveTasks (writes w) @ [SaveTasks (last (v_i # map snd rest_i))]
        \<and> itemsTimeoutRef (advance d (burst_items v_i rest_i w)) = None"
    if "gaps_below 300 rest_i"
    using burst_items_state [OF assms(1), of rest_i v_i] that assms(2,3)
    by (simp add: t advance_items_writes advance_fields)
  have c: "columnByIdTimeoutRef (burst_columnById v_c rest_c w)
            = Some (clock (burst_columnById v_c rest_c w) + 300, last (v_c # map snd rest_c))
        \<and> filter (is_SetSetting ''columnById'') (writes (burst_columnById v_c rest_c w))
            = filter (is_SetSetting ''columnById'') (writes w)
        \<and> filter (is_SetSetting ''columnById'') (writes (advance d (burst_columnById v_c rest_c w)))
            = filter (is_SetSetting ''columnById'') (writes w)
              @ [SetSetting ''columnById'' (columnById_json (last (v_c # map snd rest_c)))]
        \<and> columnByIdTimeoutRef (advance d (burst_columnById v_c rest_c w)) = None"
    if "gaps_below 300 rest_c"
    using burst_columnById_state [OF assms(1), of rest_c v_c] that assms(2,3)
    by (simp add: t advance_columnById_writes advance_fields)
  have m: "viewModeTimeoutRef (burst_viewMode v_m rest_m w)
            = Some (clock (burst_viewMode v_m rest_m w) + 300, last (v_m # map snd rest_m))
        \<and> filter (is_SetSetting ''viewMode'') (writes (burst_viewMode v_m rest_m w))
            = filter (is_SetSetting ''viewMode'') (writes w)
        \<and> filter (is_SetSetting ''viewMode'') (writes (advance d (burst_viewMode v_m rest_m w)))
            = filter (is_SetSetting ''viewMode'') (writes w)
              @ [SetSetting ''viewMode'' (ViewMode_json (last (v_m # map snd rest_m)))]
        \<and> viewModeTimeoutRef (advance d (burst_viewMode v_m rest_m w)) = None"
    if "gaps_below 300 rest_m" and "changing (viewMode w) (v_m # map snd rest_m)"
    using burst_viewMode_state [OF assms(1), of rest_m v_m] that assms(2,3)
    by (simp add: t advance_viewMode_writes advance_fields)
  have s: "saveTimeoutRef (burst_saves doc rest_d w)
            = Some (clock (burst_saves doc rest_d w) + 300)
        \<and> filter is_SaveDocument (writes (burst_saves doc rest_d w))
            = filter is_SaveDocument (writes w)
        \<and> map_of (pendingSavesRef (burst_saves doc rest_d w))
            = fold (\<lambda>x m. m(doc_id x \<mapsto> x)) (doc # map snd rest_d) (map_of (pendingSavesRef w))
        \<and> (distinct (map fst (pendingSavesRef w))
              \<longrightarrow> distinct (map fst (pendingSavesRef (burst_saves doc rest_d w))))
        \<and> filter is_SaveDocument (writes (advance d (burst_saves doc rest_d w)))
            = filter is_SaveDocument (writes w)
              @ map SaveDocument (take 1 (map snd (pendingSavesRef (burst_saves doc rest_d w))))
        \<and> pendingSavesRef (advance d (burst_saves doc rest_d w)) = []
        \<and> saveTimeoutRef (advance d (burst_saves doc rest_d w)) = None
        \<and> (inFlightSaves w = [] \<longrightarrow>
             filter is_SaveDocument (writes (settle (advance d (burst_saves doc rest_d w))))
               = filter is_SaveDocument (writes w)
                 @ map SaveDocument (map snd (pendingSavesRef (burst_saves doc rest_d w)))
           \<and> inFlightSaves (settle (advance d (burst_saves doc rest_d w))) = [])"
    if "gaps_below 300 rest_d"
  proof -
    from that have g: "gaps_below DOCUMENT_DEBOUNCE_MS rest_d" by (simp add: dd)
    note b = burst_saves_state [OF g, of doc w]
    let ?B = "burst_saves doc rest_d w"
    let ?ps = "map snd (pendingSavesRef ?B)"
    have "map_of (pendingSavesRef ?B)
            = fold (\<lambda>x m. m(doc_id x \<mapsto> x)) (doc # map snd rest_d) (map_of (pendingSavesRef w))"
      using b map_of_fold_update [of "doc # map snd rest_d" "pendingSavesRef w"] by simp
    moreover have "distinct (map fst (pendingSavesRef ?B))"
      if "distinct (map fst (pendingSavesRef w))"
      using b distinct_fold_update [OF that, of "doc # map snd rest_d"] by simp
    moreover have "filter is_SaveDocument (writes (settle (advance d ?B)))
               = filter is_SaveDocument (writes w) @ map SaveDocument ?ps
           \<and> inFlightSaves (settle (advance d ?B)) = []"
      if "inFlightSaves w = []"
    proof -
      have f: "concat (inFlightSaves (advance d ?B)) = drop 1 ?ps"
        using b assms(2,3) that by (simp add: dd advance_inFlightSaves)
      have "map SaveDocument (take 1 ?ps) @ map SaveDocument (drop 1 ?ps) = map SaveDocument ?ps"
        unfolding map_append [symmetric] append_take_drop_id ..
      then show ?thesis
        using b assms(2,3) f
        by (simp add: dd settle_fields advance_document_writes filter_map_SaveDocument)
    qed
    ultimately show ?thesis
      using b assms(2,3) by (simp add: dd advance_document_writes advance_fields)
  qed
  show ?thesis
    using t dd i c m s by blast
qed

theorem debounce_coalesces_witness:
  "hasHydratedRef world0 \<and> \<not> importInProgress world0
   \<and> gaps_below 300 [(100::nat, [item_a]), (299, [item_b])]
   \<and> filter is_SaveTasks
        (writes (advance 300 (burst_items [] [(100, [item_a]), (299, [item_b])] world0)))
       = [SaveTasks [item_b]]
   \<and> gaps_below 300 [(10::nat, [(''a'', column_3)])]
   \<and> filter (is_SetSetting ''columnById'')
        (writes (advance 300 (burst_columnById [] [(10, [(''a'', column_3)])] world0)))
       = [SetSetting ''columnById'' (JObj [(''a'', JStr ''column-3'')])]
   \<and> gaps_below 300 [(250::nat, mode_documents)]
   \<and> changing (viewMode world0) [mode_list, mode_documents]
   \<and> filter (is_SetSetting ''viewMode'')
        (writes (advance 300 (burst_viewMode mode_list [(250, mode_documents)] world0)))
       = [SetSetting ''viewMode'' (JStr ''documents'')]
   \<and> gaps_below 300 [(100::nat, document_d1), (299, document_d3\<lparr>title := ''final''\<rparr>)]
   \<and> inFlightSaves world0 = []
   \<and> filter is_SaveDocument
        (writes (advance 300 (burst_saves document_d3
                   [(100, document_d1), (299, document_d3\<lparr>title := ''final''\<rparr>)] world0)))
       = [SaveDocument (document_d3\<lparr>title := ''final''\<rparr>)]
   \<and> filter is_SaveDocument
        (writes (settle (advance 300 (burst_saves document_d3
                   [(100, document_d1), (299, document_d3\<lparr>title := ''final''\<rparr>)] world0))))
       = [SaveDocument (document_d3\<lparr>title := ''final''\<rparr>), SaveDocument document_d1]"
proof -
  have h: "hasHydratedRef world0" "\<not> importInProgress world0" "writes world0 = []"
    "pendingSavesRef world0 = []" "inFlightSaves world0 = []"
    by (simp_all add: world0_def)
  have g: "gaps_below 300 [(100::nat, [item_a]), (299, [item_b])]"
    "gaps_below 300 [(100::nat, document_d1), (299, document_d3\<lparr>title := ''final''\<rparr>)]"
    "gaps_below 300 [(250::nat, mode_documents)]"
    "gaps_below 300 [(10::nat, [(''a'', column_3)])]"
    by (simp_all add: gaps_below_def)
  have ch: "changing (viewMode world0) [mode_list, mode_documents]"
    "changing (viewMode world0) (mode_list # map snd [(250::nat, mode_documents)])"
    by (simp_all add: world0_def)
  have p: "pendingSavesRef (burst_saves document_d3
                   [(100, document_d1), (299, document_d3\<lparr>title := ''final''\<rparr>)] world0)
      = [(''d3'', document_d3\<lparr>title := ''final''\<rparr>), (''d1'', document_d1)]"
    using burst_saves_state [of "[(100, document_d1), (299, document_d3\<lparr>title := ''final''\<rparr>)]"
        document_d3 world0] g(2) h(4)
    by (simp add: DOCUMENT_DEBOUNCE_MS_def document_d1_def document_d3_def)
  note th = debounce_coalesces [OF h(1,2), where d = 300
      and rest_i = "[(100, [item_a]), (299, [item_b])]" and v_i = "[]"
      and rest_c = "[(10, [(''a'', column_3)])]" and v_c = "[]"
      and rest_m = "[(250, mode_documents)]" and v_m = mode_list
      and rest_d = "[(100, document_d1), (299, document_d3\<lparr>title := ''final''\<rparr>)]"
      and doc = document_d3]
  have i: "filter is_SaveTasks
        (writes (advance 300 (burst_items [] [(100, [item_a]), (299, [item_b])] world0)))
       = filter is_SaveTasks (writes world0)
         @ [SaveTasks (last ([] # map snd [(100::nat, [item_a]), (299, [item_b])]))]"
    using th g(1) by blast
  have c: "filter (is_SetSetting ''columnById'')
        (writes (advance 300 (burst_columnById [] [(10, [(''a'', column_3)])] world0)))
       = filter (is_SetSetting ''columnById'') (writes world0)
         @ [SetSetting ''columnById''
              (columnById_json (last ([] # map snd [(10::nat, [(''a'', column_3)])])))]"
    using th g(4) by blast
  have m: "filter (is_SetSetting ''viewMode'')
        (writes (advance 300 (burst_viewMode mode_list [(250, mode_documents)] world0)))
       = filter (is_SetSetting ''viewMode'') (writes world0)
         @ [SetSetting ''viewMode''
              (ViewMode_json (last (mode_list # map snd [(250::nat, mode_documents)])))]"
    using th g(3) ch(2) by blast
  have d1: "filter is_SaveDocument
        (writes (advance 300 (burst_saves document_d3
                   [(100, document_d1), (299, document_d3\<lparr>title := ''final''\<rparr>)] world0)))
       = filter is_SaveDocument (writes world0)
         @ map SaveDocument (take 1 (map snd (pendingSavesRef (burst_saves document_d3
                   [(100, document_d1), (299, document_d3\<lparr>title := ''final''\<rparr>)] world0))))"
    using th g(2) by blast
  have d2: "filter is_SaveDocument
        (writes (settle (advance 300 (burst_saves document_d3
                   [(100, document_d1), (299, document_d3\<lparr>title := ''final''\<rparr>)] world0))))
       = filter is_SaveDocument (writes world0)
         @ map SaveDocument (map snd (pendingSavesRef (burst_saves document_d3
                   [(100, document_d1), (299, document_d3\<lparr>title := ''final''\<rparr>)] world0)))"
    using th g(2) h(5) by blast
  show ?thesis
    unfolding i c m d1 d2 p using h g ch(1) by (simp add: columnById_json_def)
qed
section \<open>Suspension during import\<close>

text \<open>
  Claim C5.  While \<^verbatim>\<open>importInProgress\<close> is set, time may pass and timers fire, of the task
  hook and of the document hook alike, and the store is not written: the store and the
  log of writes stay as they are.  A timer that fires is gone and sets no other timer: the
  timers pending afterwards are the ones that were not yet due.  When the timer of the
  document hook fires, its map of pending saves is emptied.  So once every pending timer
  has fired under the flag, clearing the flag and waiting any longer writes nothing: the
  discarded writes are not retried.
\<close>

theorem suspended_write_is_discarded:
  assumes "importInProgress w"
  shows "store (advance d w) = store w \<and> writes (advance d w) = writes w
       \<and> deadlines (advance d w) = filter (\<lambda>deadline. clock w + d < deadline) (deadlines w)
       \<and> (\<forall>deadline. saveTimeoutRef w = Some deadline \<and> deadline \<le> clock w + d
             \<longrightarrow> pendingSavesRef (advance d w) = [])
       \<and> (list_all (\<lambda>deadline. deadline \<le> clock w + d) (deadlines w) \<longrightarrow>
            (\<forall>d'. store (advance d' (setImportInProgress False (advance d w))) = store w
                 \<and> writes (advance d' (setImportInProgress False (advance d w))) = writes w))"
proof -
  have idle: "store (advance d' (setImportInProgress False (advance d w))) = store w
      \<and> writes (advance d' (setImportInProgress False (advance d w))) = writes w"
    if "list_all (\<lambda>deadline. deadline \<le> clock w + d) (deadlines w)" for d'
  proof -
    from that have "filter (\<lambda>deadline. clock w + d < deadline) (deadlines w) = []"
      by (auto simp: filter_empty_conv list_all_iff)
    then have "deadlines (advance d w) = []"
      by (simp add: deadlines_advance)
    then have "deadlines (setImportInProgress False (advance d w)) = []"
      by (simp add: deadlines_def setImportInProgress_def)
    then have "store (advance d' (setImportInProgress False (advance d w)))
                 = store (setImportInProgress False (advance d w))"
      "writes (advance d' (setImportInProgress False (advance d w)))
                 = writes (setImportInProgress False (advance d w))"
      by (rule advance_idle)+
    then show ?thesis
      using assms by (simp add: setImportInProgress_def advance_suspended)
  qed
  show ?thesis
    using assms idle by (simp add: advance_suspended deadlines_advance advance_fields)
qed

theorem suspended_write_is_discarded_witness:
  "importInProgress world_suspended
   \<and> deadlines world_suspended = [300, 300]
   \<and> map fst (pendingSavesRef world_suspended) = [''d3'']
   \<and> store (advance 300 world_suspended) = store world_suspended
   \<and> writes (advance 300 world_suspended) = []
   \<and> deadlines (advance 300 world_suspended) = []
   \<and> pendingSavesRef (advance 300 world_suspended) = []
   \<and> store (advance 1000 (setImportInProgress False (advance 300 world_suspended)))
       = store world_suspended
   \<and> writes (advance 1000 (setImportInProgress False (advance 300 world_suspended))) = []"
proof -
  have f: "importInProgress world_suspended"
    by (simp add: world_suspended_def setImportInProgress_def)
  have d: "deadlines world_suspended = [300, 300]"
    "map fst (pendingSavesRef world_suspended) = [''d3'']"
    "writes world_suspended = []" "clock world_suspended = 0"
    "saveTimeoutRef world_suspended = Some 300"
    by (simp_all add: world_suspended_def setImportInProgress_def scheduleSave_def setItems_def
          deadlines_def world_defs TASK_DEBOUNCE_MS_def DOCUMENT_DEBOUNCE_MS_def)
  from suspended_write_is_discarded [OF f, of 300] f d show ?thesis
    by simp
qed
section \<open>Sub-task toggle\<close>

lemma fold_setColumnById_column:
  "columnById (fold (\<lambda>item w'. setColumnById
                                       (New_reference (AList.update k c (columnById w'))) w') ms w)
     = (if ms = [] then columnById w else AList.update k c (columnById w))"
proof (induction ms arbitrary: w)
  case Nil
  show ?case by simp
next
  case (Cons m ms)
  have "AList.update k c (AList.update k c al) = AList.update k c al" for al :: "(string \<times> ColumnId) list"
    by (induction al) auto
  then show ?case
    by (simp add: Cons.IH setColumnById_fields)
qed

lemma toggleSubTask_columnById:
  assumes "editingItemId w = Some e" and "e \<noteq> []"
  shows "columnById (toggleSubTask s w)
     = (if \<exists>item \<in> set (items w). task_id item = e
              \<and> list_ex completed (subTasks (toggled s item)) \<and> column_of w e = column_1
        then AList.update e column_2 (columnById w) else columnById w)"
proof -
  let ?movers = "filter (\<lambda>item. task_id item = e
                                     \<and> list_ex completed (subTasks (toggled s item))
                                     \<and> column_of w (task_id item) = column_1) (items w)"
  have "fold (\<lambda>item w'. setColumnById
                 (New_reference (AList.update (task_id item) column_2 (columnById w'))) w') ?movers w1
      = fold (\<lambda>item w'. setColumnById
                 (New_reference (AList.update e column_2 (columnById w'))) w') ?movers w1" for w1
    by (rule fold_cong) auto
  then have "columnById (toggleSubTask s w)
      = (if ?movers = [] then columnById w else AList.update e column_2 (columnById w))"
    using assms
    by (simp add: toggleSubTask_def Let_def fold_setColumnById_column setItems_fields)
  moreover have "(?movers = []) = (\<not> (\<exists>item \<in> set (items w). task_id item = e
              \<and> list_ex completed (subTasks (toggled s item)) \<and> column_of w e = column_1))"
    by (auto simp: filter_empty_conv)
  ultimately show ?thesis
    by (cases "?movers = []") auto
qed

lemma fold_setColumnById_editing:
  "editingItemId (fold (\<lambda>item w'. setColumnById (f item w') w') ms w) = editingItemId w"
  by (induction ms arbitrary: w) (simp_all add: setColumnById_frame)

lemma toggleSubTask_editing: "editingItemId (toggleSubTask s w) = editingItemId w"
  by (simp add: toggleSubTask_def Let_def fold_setColumnById_editing setItems_fields
        split: option.splits)

lemma column_of_cong: "columnById a = columnById b \<Longrightarrow> column_of a k = column_of b k"
  by (simp add: column_of_def)

lemma column_of_update:
  "columnById w' = AList.update k c (columnById w) \<Longrightarrow>
     column_of w' i = (if i = k then c else column_of w i)"
  by (simp add: column_of_def update_conv')

text \<open>
  Claim C8.  Let a task be open in the editor, in the column "not started" (\<^verbatim>\<open>column-1\<close>,
  mapped or by default), with a sub-task that is not completed.  Toggling that sub-task
  moves the task to "in progress" (\<^verbatim>\<open>column-2\<close>); toggling it again leaves the task in
  "in progress"; and no toggle, in any state, takes any task that is not in "not started"
  to "not started".
\<close>

theorem toggle_moves_to_in_progress:
  assumes editing: "editingItemId w = Some e" "e \<noteq> []"
    and item: "item \<in> set (items w)" "task_id item = e"
    and sub: "st \<in> set (subTasks item)" "subtask_id st = s" "\<not> completed st"
    and col: "column_of w e = column_1"
  shows "column_of (toggleSubTask s w) e = column_2
       \<and> column_of (toggleSubTask s (toggleSubTask s w)) e = column_2
       \<and> (\<forall>s' w' k. column_of w' k \<noteq> column_1 \<longrightarrow> column_of (toggleSubTask s' w') k \<noteq> column_1)"
proof -
  have "st\<lparr>completed := \<not> completed st\<rparr> \<in> set (subTasks (toggled s item))"
    using sub by (force simp: toggled_def)
  moreover have "completed (st\<lparr>completed := \<not> completed st\<rparr>)"
    using sub(3) by simp
  ultimately have "list_ex completed (subTasks (toggled s item))"
    unfolding list_ex_iff by blast
  then have mv: "\<exists>item \<in> set (items w). task_id item = e
              \<and> list_ex completed (subTasks (toggled s item)) \<and> column_of w e = column_1"
    using item col by blast
  have c1: "columnById (toggleSubTask s w) = AList.update e column_2 (columnById w)"
    using toggleSubTask_columnById [OF editing, of s] mv by simp
  then have first: "column_of (toggleSubTask s w) e = column_2"
    by (simp add: column_of_update)
  have keep: "column_of (toggleSubTask s' w') k \<noteq> column_1" if "column_of w' k \<noteq> column_1" for s' w' k
  proof (cases "\<exists>e'. editingItemId w' = Some e' \<and> e' \<noteq> []")
    case False
    then have "toggleSubTask s' w' = w'"
      by (cases "editingItemId w'") (auto simp: toggleSubTask_def)
    with that show ?thesis by simp
  next
    case True
    then obtain e' where e': "editingItemId w' = Some e'" "e' \<noteq> []" by blast
    have "columnById (toggleSubTask s' w') = columnById w'
        \<or> columnById (toggleSubTask s' w') = AList.update e' column_2 (columnById w')"
      using toggleSubTask_columnById [OF e', of s'] by presburger
    then show ?thesis
    proof
      assume "columnById (toggleSubTask s' w') = columnById w'"
      then have "column_of (toggleSubTask s' w') k = column_of w' k"
        by (rule column_of_cong)
      with that show ?thesis by simp
    next
      assume "columnById (toggleSubTask s' w') = AList.update e' column_2 (columnById w')"
      then have "column_of (toggleSubTask s' w') k = (if k = e' then column_2 else column_of w' k)"
        by (rule column_of_update)
      with that show ?thesis by simp
    qed
  qed
  have "column_of (toggleSubTask s (toggleSubTask s w)) e = column_2"
  proof -
    have ed: "editingItemId (toggleSubTask s w) = Some e"
      using editing by (simp add: toggleSubTask_editing)
    have "columnById (toggleSubTask s (toggleSubTask s w)) = columnById (toggleSubTask s w)"
      using toggleSubTask_columnById [OF ed editing(2), of s] first by simp
    then show ?thesis
      using first column_of_cong by metis
  qed
  then show ?thesis
    using first keep by blast
qed

theorem toggle_moves_to_in_progress_witness:
  "column_of world_editing_b ''b'' = column_1
   \<and> column_of (toggleSubTask ''s1'' world_editing_b) ''b'' = column_2
   \<and> column_of (toggleSubTask ''s1'' (toggleSubTask ''s1'' world_editing_b)) ''b'' = column_2"
proof -
  have e: "editingItemId world_editing_b = Some ''b''" "''b'' \<noteq> []"
    by (simp_all add: world_editing_b_def)
  have i: "item_b \<in> set (items world_editing_b)" "task_id item_b = ''b''"
    by (simp_all add: world_editing_b_def world_defs)
  have s: "\<lparr>subtask_id = ''s1'', subtask_label = ''page 1'', completed = False\<rparr>
             \<in> set (subTasks item_b)"
    "subtask_id \<lparr>subtask_id = ''s1'', subtask_label = ''page 1'', completed = False\<rparr> = ''s1''"
    "\<not> completed \<lparr>subtask_id = ''s1'', subtask_label = ''page 1'', completed = False\<rparr>"
    by (simp_all add: item_b_def)
  have c: "column_of world_editing_b ''b'' = column_1"
    by (simp add: column_of_def world_editing_b_def world_defs DEFAULT_COLUMN_def)
  from toggle_moves_to_in_progress [OF e i s c] c show ?thesis by simp
qed
section \<open>Mutations and store writes\<close>










section \<open>Deletes and the import flag\<close>

text \<open>
  Claim C10.  \<^verbatim>\<open>deleteDocument\<close> and \<^verbatim>\<open>deleteDocumentsByTaskId\<close> of the document hook issue
  their store deletes whatever the flag \<^verbatim>\<open>importInProgress\<close> says: with the flag set or
  not, the store after the call is the store with the delete applied, and the delete is
  logged.  The callbacks of the debounced saves are the ones that look at the flag: with
  the flag set they leave the store as it is.
\<close>

theorem deletes_ignore_import_flag:
  "store (deleteDocument i (setImportInProgress flag w)) = deleteDocumentFromDb i (store w)
   \<and> writes (deleteDocument i (setImportInProgress flag w)) = writes w @ [DeleteDocument i]
   \<and> store (deleteDocumentsByTaskId t (setImportInProgress flag w))
       = deleteDocumentsByTaskIdFromDb t (store w)
   \<and> writes (deleteDocumentsByTaskId t (setImportInProgress flag w))
       = writes w @ [DeleteDocumentsByTaskId t]
   \<and> store (saveTimeout_callback (setImportInProgress True w)) = store w
   \<and> writes (saveTimeout_callback (setImportInProgress True w)) = writes w
   \<and> store (itemsTimeout_callback v (setImportInProgress True w)) = store w
   \<and> store (columnByIdTimeout_callback c (setImportInProgress True w)) = store w
   \<and> store (viewModeTimeout_callback m (setImportInProgress True w)) = store w"
  by (simp add: deleteDocument_fields deleteDocumentsByTaskId_fields setImportInProgress_def
        saveTimeout_callback_def itemsTimeout_callback_def columnByIdTimeout_callback_def
        viewModeTimeout_callback_def)

theorem deletes_ignore_import_flag_witness:
  "db_documents (store (setImportInProgress True world0)) = [doc_of_a]
   \<and> importInProgress (setImportInProgress True world0)
   \<and> db_documents (store (deleteDocument ''d1'' (setImportInProgress True world0))) = []
   \<and> db_documents (store (deleteDocumentsByTaskId ''a'' (setImportInProgress True world0))) = []
   \<and> writes (deleteDocument ''d1'' (setImportInProgress True world0)) = [DeleteDocument ''d1'']"
  using deletes_ignore_import_flag [of "''d1''" True world0 "''a''"]
  by (simp add: setImportInProgress_def world_defs example_defs deleteDocumentFromDb_def
        deleteDocumentsByTaskIdFromDb_def Table_delete_def Table_where_equals_delete_def
        key_of_def)

end
